theory Spec2Isabelle
  imports Complex_Main "HOL-Library.Word" "HOL-Library.AList" "HOL-Library.Char_ord" "HOL-Library.List_Lexorder"
begin

unbundle bit_operations_syntax

section \<open>Rendezvous: private mutual matching\<close>

text \<open>
  A shallow embedding of the matching engine: pool status (pool.ts), the cryptographic helpers
  (crypto.ts), the in-memory store (storage.ts), submission and reveal handling (submission.ts),
  match detection (detection.ts) and gate evaluation (gates/index.ts).

  Conventions. A JavaScript \<open>Date\<close> is its millisecond value, an \<open>int\<close>. An optional field is an
  \<open>option\<close>. A \<open>Map\<close> is an association list in insertion order, written to with
  \<open>AList.update\<close> (replace in place, else append), which is the iteration order of a JavaScript
  \<open>Map\<close>. A thrown error is \<open>Inl\<close> of the error code. Every \<open>new Date()\<close> read within one call
  is the single parameter \<open>now\<close>.
\<close>

subsection \<open>Types (types.ts)\<close>

datatype PoolStatus = Open | Commit | Reveal | Closed

datatype RendezvousErrorCode =
    POOL_NOT_FOUND | POOL_CLOSED | POOL_NOT_IN_COMMIT_PHASE | POOL_NOT_IN_REVEAL_PHASE
  | ALREADY_REGISTERED | PARTICIPANT_NOT_FOUND
  | DUPLICATE_NULLIFIER | PREFERENCE_LIMIT_EXCEEDED | INVALID_ELIGIBILITY_PROOF
  | COMMITMENT_NOT_FOUND | COMMITMENT_MISMATCH
  | INVALID_PUBLIC_KEY | INVALID_PRIVATE_KEY
  | INVALID_INPUT | INTERNAL_ERROR

text \<open>An error is a \<open>RendezvousError\<close> with its code, or an exception thrown by a library or an
  adapter, with its message.\<close>

datatype error = RendezvousError RendezvousErrorCode | ThrownError string

record FreebirdProof =
  tokenValue :: string
  expiration :: int
  issuerId :: string
  epoch :: "int option"

record WitnessProof =
  wp_hash :: string
  wp_timestamp :: int
  networkId :: string
  wp_sequence :: int

record Pool =
  pool_id :: string
  commitDeadline :: "int option"
  revealDeadline :: int
  maxPreferencesPerParticipant :: "int option"
  status :: PoolStatus
  updatedAt :: int

record Preference =
  pref_id :: string
  pref_poolId :: string
  matchToken :: string
  commitHash :: "string option"
  revealed :: bool
  submittedAt :: int
  eligibilityProof :: "FreebirdProof option"
  nullifier :: string
  encryptedReveal :: "string option"

record RevealDataEntry =
  rd_matchToken :: string
  rd_encryptedReveal :: string

record SubmitPreferencesRequest =
  sr_poolId :: string
  sr_matchTokens :: "string list"
  sr_commitHashes :: "string list option"
  sr_eligibilityProof :: "FreebirdProof option"
  sr_nullifier :: string
  sr_revealData :: "RevealDataEntry list option"

record RevealPreferencesRequest =
  rr_poolId :: string
  rr_matchTokens :: "string list"
  rr_nullifier :: string

record MatchResult =
  mr_poolId :: string
  matchedTokens :: "string list"
  totalSubmissions :: nat
  uniqueParticipants :: nat
  detectedAt :: int
  witnessProof :: "WitnessProof option"

record DiscoveredMatch =
  matchedPublicKey :: string
  dm_matchToken :: string
  dm_poolId :: string

subsection \<open>Library primitives\<close>

text \<open>
  Bytes are 8-bit words. The primitives of the external libraries that crypto.ts and detection.ts
  call are parameters of the model: SHA-256 and X25519 of @noble, and \<open>JSON.stringify\<close> applied
  to the match data. \<open>x25519_scalarMult\<close> is \<open>None\<close> where the library throws.
\<close>

type_synonym byte = "8 word"

record primitives =
  sha256 :: "byte list \<Rightarrow> byte list"
  x25519_getPublicKey :: "byte list \<Rightarrow> byte list"
  x25519_scalarMult :: "byte list \<Rightarrow> byte list \<Rightarrow> byte list option"
  stringifyMatchData :: "string \<Rightarrow> string list \<Rightarrow> nat \<Rightarrow> string \<Rightarrow> string"

text \<open>\<open>TextEncoder.encode\<close>: a string is taken as its sequence of byte-sized characters.\<close>

definition encode :: "string \<Rightarrow> byte list" where
  "encode s = map (\<lambda>c. of_nat (of_char c)) s"

text \<open>\<open>bytesToHex\<close> and \<open>hexToBytes\<close> of @noble/hashes/utils: two lower-case digits per byte;
  decoding accepts both cases and throws (\<open>None\<close>) on an odd length or a non-hex character.\<close>

definition hexChar :: "nat \<Rightarrow> char" where
  "hexChar n = ''0123456789abcdef'' ! n"

definition bytesToHex :: "byte list \<Rightarrow> string" where
  "bytesToHex bs = concat (map (\<lambda>b. [hexChar (unat b div 16), hexChar (unat b mod 16)]) bs)"

definition asciiToBase16 :: "char \<Rightarrow> nat option" where
  "asciiToBase16 c =
     (let ch = (of_char c :: nat) in
      if 48 \<le> ch \<and> ch \<le> 57 then Some (ch - 48)
      else if 65 \<le> ch \<and> ch \<le> 70 then Some (ch - 55)
      else if 97 \<le> ch \<and> ch \<le> 102 then Some (ch - 87)
      else None)"

fun hexToBytes :: "string \<Rightarrow> byte list option" where
  "hexToBytes [] = Some []"
| "hexToBytes [c] = None"
| "hexToBytes (c1 # c2 # cs) =
     (case (asciiToBase16 c1, asciiToBase16 c2) of
        (Some n1, Some n2) \<Rightarrow>
          (case hexToBytes cs of
             Some bs \<Rightarrow> Some (of_nat (n1 * 16 + n2) # bs)
           | None \<Rightarrow> None)
      | _ \<Rightarrow> None)"

subsection \<open>Cryptographic helpers (crypto.ts)\<close>

definition MATCH_DOMAIN :: string where
  "MATCH_DOMAIN = ''rendezvous-match-v1''"

record Keypair =
  publicKey :: string
  privateKey :: string

text \<open>\<open>generateKeypair\<close>, with the 32 bytes that \<open>randomBytes(32)\<close> returned as argument.\<close>

definition generateKeypair :: "primitives \<Rightarrow> byte list \<Rightarrow> Keypair" where
  "generateKeypair prim rnd =
     \<lparr> publicKey = bytesToHex (x25519_getPublicKey prim rnd), privateKey = bytesToHex rnd \<rparr>"

definition deriveMatchToken :: "primitives \<Rightarrow> string \<Rightarrow> string \<Rightarrow> string \<Rightarrow> error + string" where
  "deriveMatchToken prim myPrivateKey theirPublicKey poolId =
     (case hexToBytes myPrivateKey of
        None \<Rightarrow> Inl (ThrownError ''hex string expected'')
      | Some privateKeyBytes \<Rightarrow>
     (case hexToBytes theirPublicKey of
        None \<Rightarrow> Inl (ThrownError ''hex string expected'')
      | Some publicKeyBytes \<Rightarrow>
     (case x25519_scalarMult prim privateKeyBytes publicKeyBytes of
        None \<Rightarrow> Inl (ThrownError ''invalid private or public key received'')
      | Some shared \<Rightarrow>
          Inr (bytesToHex (sha256 prim (shared @ encode poolId @ encode MATCH_DOMAIN))))))"

definition commitToken :: "primitives \<Rightarrow> string \<Rightarrow> string" where
  "commitToken prim t = bytesToHex (sha256 prim (encode t))"

text \<open>\<open>constantTimeEqual\<close>: the loop ORs the XOR of the character codes into \<open>result\<close>.\<close>

definition constantTimeEqual :: "string \<Rightarrow> string \<Rightarrow> bool" where
  "constantTimeEqual a b =
     (if length a \<noteq> length b then False
      else fold (\<lambda>(x, y) result. result OR ((of_char x :: nat) XOR of_char y)) (zip a b) 0 = 0)"

definition verifyCommitment :: "primitives \<Rightarrow> string \<Rightarrow> string \<Rightarrow> bool" where
  "verifyCommitment prim t c = constantTimeEqual (commitToken prim t) c"

definition randomHex :: "byte list \<Rightarrow> string" where
  "randomHex rnd = bytesToHex rnd"

definition isHexChar :: "char \<Rightarrow> bool" where
  "isHexChar c = (asciiToBase16 c \<noteq> None)"

text \<open>\<open>isValidMatchToken\<close>: the regular expression \<open>^[0-9a-fA-F]{64}$\<close>.\<close>

definition isValidMatchToken :: "string \<Rightarrow> bool" where
  "isValidMatchToken t = (length t = 64 \<and> list_all isHexChar t)"

subsection \<open>Pool status (pool.ts)\<close>

definition getEffectiveStatus :: "int \<Rightarrow> Pool \<Rightarrow> PoolStatus" where
  "getEffectiveStatus now pool =
     (if status pool = Closed then Closed
      else if now \<ge> revealDeadline pool then Closed
      else (case commitDeadline pool of
              Some cd \<Rightarrow> (if now \<ge> cd then Reveal else Commit)
            | None \<Rightarrow> Open))"

definition acceptsCommits :: "int \<Rightarrow> Pool \<Rightarrow> bool" where
  "acceptsCommits now pool = (getEffectiveStatus now pool = Commit)"

definition acceptsReveals :: "int \<Rightarrow> Pool \<Rightarrow> bool" where
  "acceptsReveals now pool =
     (let st = getEffectiveStatus now pool in st = Open \<or> st = Reveal)"

definition isClosed :: "int \<Rightarrow> Pool \<Rightarrow> bool" where
  "isClosed now pool = (getEffectiveStatus now pool = Closed)"

subsection \<open>In-memory store (storage.ts, InMemoryStore)\<close>

record InMemoryStore =
  pools :: "(string \<times> Pool) list"
  preferences :: "(string \<times> Preference) list"
  matchResults :: "(string \<times> MatchResult) list"

record PreferenceFilter =
  f_poolId :: "string option"
  f_nullifier :: "string option"
  f_revealed :: "bool option"

text \<open>A string in a condition is true when it is present and not empty.\<close>

definition truthy :: "string option \<Rightarrow> bool" where
  "truthy v = (case v of None \<Rightarrow> False | Some x \<Rightarrow> x \<noteq> [])"

definition insertPool :: "InMemoryStore \<Rightarrow> Pool \<Rightarrow> InMemoryStore" where
  "insertPool s pool = s\<lparr>pools := AList.update (pool_id pool) pool (pools s)\<rparr>"

definition getPool :: "InMemoryStore \<Rightarrow> string \<Rightarrow> Pool option" where
  "getPool s ident = map_of (pools s) ident"

definition store_updatePoolStatus :: "int \<Rightarrow> InMemoryStore \<Rightarrow> string \<Rightarrow> PoolStatus \<Rightarrow> InMemoryStore" where
  "store_updatePoolStatus now s ident st =
     (case map_of (pools s) ident of
        None \<Rightarrow> s
      | Some pool \<Rightarrow> s\<lparr>pools := AList.update ident (pool\<lparr>status := st, updatedAt := now\<rparr>) (pools s)\<rparr>)"

definition insertPreference :: "InMemoryStore \<Rightarrow> Preference \<Rightarrow> InMemoryStore" where
  "insertPreference s pref = s\<lparr>preferences := AList.update (pref_id pref) pref (preferences s)\<rparr>"

definition getPreferences :: "InMemoryStore \<Rightarrow> PreferenceFilter \<Rightarrow> Preference list" where
  "getPreferences s f =
     (let results = map snd (preferences s);
          results = (if truthy (f_poolId f)
                     then filter (\<lambda>p. Some (pref_poolId p) = f_poolId f) results else results);
          results = (if truthy (f_nullifier f)
                     then filter (\<lambda>p. Some (nullifier p) = f_nullifier f) results else results);
          results = (case f_revealed f of
                       Some r \<Rightarrow> filter (\<lambda>p. revealed p = r) results
                     | None \<Rightarrow> results)
      in sort_key submittedAt results)"

definition getPreferencesByPoolId :: "InMemoryStore \<Rightarrow> string \<Rightarrow> Preference list" where
  "getPreferencesByPoolId s poolId =
     getPreferences s \<lparr> f_poolId = Some poolId, f_nullifier = None, f_revealed = None \<rparr>"

definition getPreferencesByNullifier :: "InMemoryStore \<Rightarrow> string \<Rightarrow> string \<Rightarrow> Preference list" where
  "getPreferencesByNullifier s poolId nf =
     getPreferences s \<lparr> f_poolId = Some poolId, f_nullifier = Some nf, f_revealed = None \<rparr>"

definition updatePreferenceRevealed :: "InMemoryStore \<Rightarrow> string \<Rightarrow> string \<Rightarrow> InMemoryStore" where
  "updatePreferenceRevealed s ident tok =
     (case map_of (preferences s) ident of
        None \<Rightarrow> s
      | Some pref \<Rightarrow>
          s\<lparr>preferences := AList.update ident (pref\<lparr>revealed := True, matchToken := tok\<rparr>) (preferences s)\<rparr>)"

definition countPreferencesByNullifier :: "InMemoryStore \<Rightarrow> string \<Rightarrow> string \<Rightarrow> nat" where
  "countPreferencesByNullifier s poolId nf = length (getPreferencesByNullifier s poolId nf)"

definition insertMatchResult :: "InMemoryStore \<Rightarrow> MatchResult \<Rightarrow> InMemoryStore" where
  "insertMatchResult s r = s\<lparr>matchResults := AList.update (mr_poolId r) r (matchResults s)\<rparr>"

definition getMatchResult :: "InMemoryStore \<Rightarrow> string \<Rightarrow> MatchResult option" where
  "getMatchResult s poolId = map_of (matchResults s) poolId"

text \<open>\<open>countTokenOccurrences\<close>: the loop over the revealed preferences of the pool, with
  \<open>counts.get(token) || 0\<close>.\<close>

definition countStep :: "Preference \<Rightarrow> (string \<times> nat) list \<Rightarrow> (string \<times> nat) list" where
  "countStep pref counts =
     (let current = (case map_of counts (matchToken pref) of None \<Rightarrow> 0 | Some c \<Rightarrow> c)
      in AList.update (matchToken pref) (current + 1) counts)"

definition countTokenOccurrences :: "InMemoryStore \<Rightarrow> string \<Rightarrow> (string \<times> nat) list" where
  "countTokenOccurrences s poolId =
     fold countStep
       (getPreferences s \<lparr> f_poolId = Some poolId, f_nullifier = None, f_revealed = Some True \<rparr>) []"

subsection \<open>SQLite store: the match\_results table (storage.ts, SQLiteStore)\<close>




subsection \<open>Pool manager (pool.ts)\<close>

definition requirePool :: "InMemoryStore \<Rightarrow> string \<Rightarrow> error + Pool" where
  "requirePool s ident =
     (case getPool s ident of
        None \<Rightarrow> Inl (RendezvousError POOL_NOT_FOUND)
      | Some pool \<Rightarrow> Inr pool)"

text \<open>\<open>updatePoolStatus\<close> returns the pool and the store; the store is written only when the
  stored status differs from the effective one.\<close>

definition updatePoolStatus :: "int \<Rightarrow> InMemoryStore \<Rightarrow> string \<Rightarrow> (error + Pool) \<times> InMemoryStore" where
  "updatePoolStatus now s poolId =
     (case requirePool s poolId of
        Inl e \<Rightarrow> (Inl e, s)
      | Inr pool \<Rightarrow>
          (let effectiveStatus = getEffectiveStatus now pool in
           if status pool \<noteq> effectiveStatus
           then (Inr (pool\<lparr>status := effectiveStatus, updatedAt := now\<rparr>),
                 store_updatePoolStatus now s poolId effectiveStatus)
           else (Inr pool, s)))"

definition closePool :: "int \<Rightarrow> InMemoryStore \<Rightarrow> string \<Rightarrow> (error + Pool) \<times> InMemoryStore" where
  "closePool now s poolId =
     (case requirePool s poolId of
        Inl e \<Rightarrow> (Inl e, s)
      | Inr pool \<Rightarrow>
          (Inr (pool\<lparr>status := Closed, updatedAt := now\<rparr>), store_updatePoolStatus now s poolId Closed))"

subsection \<open>Submission manager (submission.ts)\<close>

text \<open>
  The random choices of one call are its argument: the value \<open>Math.random()\<close> returned; the
  bytes returned by the \<open>k\<close>-th call of \<open>randomBytes(32)\<close>; and the string returned by the
  \<open>k\<close>-th call of \<open>uuidv4()\<close>.

  \<open>Math.random()\<close> returns an IEEE 754 double in \<open>[0, 1)\<close>. Every such double is \<open>m / 2^e\<close> for a
  significand \<open>m < 2^53\<close> and an exponent \<open>53 \<le> e \<le> 1074\<close> (the normal doubles of
  \<open>[2^-k, 2^(1-k))\<close> have \<open>e = k + 52\<close>, the subnormal ones \<open>e = 1074\<close>); the pair \<open>(m, e)\<close>
  stands for it.
\<close>

type_synonym double = "nat \<times> nat"

definition isUnitDouble :: "double \<Rightarrow> bool" where
  "isUnitDouble x = (fst x < 2 ^ 53 \<and> 53 \<le> snd x \<and> snd x \<le> 1074)"

text \<open>
  The JavaScript product \<open>x * c\<close> of a double \<open>x = m / 2^e\<close> and a small non-negative integer
  \<open>c\<close> is the double nearest to the exact product \<open>c * m / 2^e\<close>, a tie going to the even
  significand. The significand of a double has 53 bits: of the numerator \<open>c * m\<close> the bits in
  excess of 53 are rounded away. The result is again written over \<open>2^e\<close>. \<open>Math.floor\<close> of a
  non-negative double is the integer quotient.
\<close>

function excessBits :: "nat \<Rightarrow> nat" where
  "excessBits n = (if n < 2 ^ 53 then 0 else Suc (excessBits (n div 2)))"
  by pat_completeness auto
termination
proof (relation "measure id")
  show "wf (measure id)" by simp
next
  fix n :: nat assume "\<not> n < 2 ^ 53"
  then have "0 < n" by (cases n) simp_all
  then show "(n div 2, n) \<in> measure id" by simp
qed

declare excessBits.simps [simp del]

definition roundHalfEven :: "nat \<Rightarrow> nat \<Rightarrow> nat" where
  "roundHalfEven n s =
     (let q = n div 2 ^ s; r = n mod 2 ^ s
      in if 2 ^ s < 2 * r \<or> (2 * r = 2 ^ s \<and> odd q) then q + 1 else q)"

definition timesDouble :: "nat \<Rightarrow> double \<Rightarrow> double" where
  "timesDouble c x =
     (let n = c * fst x; s = excessBits n in (roundHalfEven n s * 2 ^ s, snd x))"

definition floorDouble :: "double \<Rightarrow> nat" where
  "floorDouble x = fst x div 2 ^ snd x"

record Random =
  mathRandom :: double
  randomBytes :: "nat \<Rightarrow> byte list"
  uuidv4 :: "nat \<Rightarrow> string"

definition DECOY_MIN :: nat where
  "DECOY_MIN = 3"

definition DECOY_MAX :: nat where
  "DECOY_MAX = 8"

definition decoyCount :: "double \<Rightarrow> nat" where
  "decoyCount r = DECOY_MIN + floorDouble (timesDouble (DECOY_MAX - DECOY_MIN + 1) r)"

definition generateDecoyTokens :: "Random \<Rightarrow> string list" where
  "generateDecoyTokens rng =
     map (\<lambda>i. randomHex (randomBytes rng i)) [0..<decoyCount (mathRandom rng)]"

record SubmissionResult =
  success :: bool
  preferenceIds :: "string list"
  phase :: PoolStatus

record RevealResult =
  rv_success :: bool
  revealedCount :: nat

definition hasSubmitted :: "InMemoryStore \<Rightarrow> string \<Rightarrow> string \<Rightarrow> bool" where
  "hasSubmitted s poolId nf = (countPreferencesByNullifier s poolId nf > 0)"

definition validateSubmission :: "int \<Rightarrow> InMemoryStore \<Rightarrow> SubmitPreferencesRequest \<Rightarrow> Pool \<Rightarrow> error + unit" where
  "validateSubmission now s req pool =
     (if sr_nullifier req = [] then Inl (RendezvousError INVALID_INPUT)
      else if hasSubmitted s (pool_id pool) (sr_nullifier req)
        then Inl (RendezvousError DUPLICATE_NULLIFIER)
      else if sr_matchTokens req = [] then Inl (RendezvousError INVALID_INPUT)
      else if (case maxPreferencesPerParticipant pool of
                 Some m \<Rightarrow> m \<noteq> 0 \<and> int (length (sr_matchTokens req)) > m
               | None \<Rightarrow> False)
        then Inl (RendezvousError PREFERENCE_LIMIT_EXCEEDED)
      else if \<not> list_all isValidMatchToken (sr_matchTokens req)
        then Inl (RendezvousError INVALID_INPUT)
      else if getEffectiveStatus now pool = Commit \<and>
              (case sr_commitHashes req of
                 Some hs \<Rightarrow> length hs \<noteq> length (sr_matchTokens req)
               | None \<Rightarrow> False)
        then Inl (RendezvousError INVALID_INPUT)
      else Inr ())"

definition buildRevealDataMap :: "RevealDataEntry list option \<Rightarrow> (string \<times> string) list" where
  "buildRevealDataMap rd =
     (case rd of
        None \<Rightarrow> []
      | Some entries \<Rightarrow>
          fold (\<lambda>e m. AList.update (rd_matchToken e) (rd_encryptedReveal e) m) entries [])"

text \<open>\<open>request.commitHashes?.[i] || commitToken(token)\<close>\<close>

definition commitFor :: "primitives \<Rightarrow> SubmitPreferencesRequest \<Rightarrow> nat \<Rightarrow> string \<Rightarrow> string" where
  "commitFor prim req i tok =
     (case sr_commitHashes req of
        Some hs \<Rightarrow> (if i < length hs \<and> hs ! i \<noteq> [] then hs ! i else commitToken prim tok)
      | None \<Rightarrow> commitToken prim tok)"

definition commitPreference ::
  "primitives \<Rightarrow> Random \<Rightarrow> int \<Rightarrow> SubmitPreferencesRequest \<Rightarrow> Pool \<Rightarrow> nat \<times> string \<Rightarrow> Preference" where
  "commitPreference prim rng now req pool it =
     \<lparr> pref_id = uuidv4 rng (fst it), pref_poolId = pool_id pool, matchToken = snd it,
       commitHash = Some (commitFor prim req (fst it) (snd it)), revealed = False,
       submittedAt = now, eligibilityProof = sr_eligibilityProof req,
       nullifier = sr_nullifier req,
       encryptedReveal = map_of (buildRevealDataMap (sr_revealData req)) (snd it) \<rparr>"

definition commitDecoy ::
  "primitives \<Rightarrow> Random \<Rightarrow> int \<Rightarrow> SubmitPreferencesRequest \<Rightarrow> Pool \<Rightarrow> nat \<times> string \<Rightarrow> Preference" where
  "commitDecoy prim rng now req pool it =
     \<lparr> pref_id = uuidv4 rng (fst it), pref_poolId = pool_id pool, matchToken = snd it,
       commitHash = Some (commitToken prim (snd it)), revealed = False,
       submittedAt = now, eligibilityProof = sr_eligibilityProof req,
       nullifier = sr_nullifier req, encryptedReveal = None \<rparr>"

definition directPreference ::
  "Random \<Rightarrow> int \<Rightarrow> SubmitPreferencesRequest \<Rightarrow> Pool \<Rightarrow> nat \<times> string \<Rightarrow> Preference" where
  "directPreference rng now req pool it =
     \<lparr> pref_id = uuidv4 rng (fst it), pref_poolId = pool_id pool, matchToken = snd it,
       commitHash = None, revealed = True,
       submittedAt = now, eligibilityProof = sr_eligibilityProof req,
       nullifier = sr_nullifier req,
       encryptedReveal = map_of (buildRevealDataMap (sr_revealData req)) (snd it) \<rparr>"

definition directDecoy ::
  "Random \<Rightarrow> int \<Rightarrow> SubmitPreferencesRequest \<Rightarrow> Pool \<Rightarrow> nat \<times> string \<Rightarrow> Preference" where
  "directDecoy rng now req pool it =
     \<lparr> pref_id = uuidv4 rng (fst it), pref_poolId = pool_id pool, matchToken = snd it,
       commitHash = None, revealed = True,
       submittedAt = now, eligibilityProof = sr_eligibilityProof req,
       nullifier = sr_nullifier req, encryptedReveal = None \<rparr>"

text \<open>The two loops of a handler insert one preference per token; the \<open>i\<close>-th preference of
  the call takes the \<open>i\<close>-th \<open>uuidv4()\<close>, the real tokens first and the decoys after them.\<close>

definition insertAll :: "InMemoryStore \<Rightarrow> Preference list \<Rightarrow> InMemoryStore" where
  "insertAll s prefs = fold (\<lambda>p st. insertPreference st p) prefs s"

definition handleCommitSubmission ::
  "primitives \<Rightarrow> Random \<Rightarrow> int \<Rightarrow> InMemoryStore \<Rightarrow> SubmitPreferencesRequest \<Rightarrow> Pool
     \<Rightarrow> SubmissionResult \<times> InMemoryStore" where
  "handleCommitSubmission prim rng now s req pool =
     (let realTokenCount = length (sr_matchTokens req);
          real = map (commitPreference prim rng now req pool)
                   (zip [0..<realTokenCount] (sr_matchTokens req));
          s1 = insertAll s real;
          decoys = generateDecoyTokens rng;
          s2 = insertAll s1 (map (commitDecoy prim rng now req pool)
                   (zip [realTokenCount..<realTokenCount + length decoys] decoys))
      in (\<lparr> success = True, preferenceIds = map pref_id real, phase = Commit \<rparr>, s2))"

definition handleDirectSubmission ::
  "Random \<Rightarrow> int \<Rightarrow> InMemoryStore \<Rightarrow> SubmitPreferencesRequest \<Rightarrow> Pool
     \<Rightarrow> SubmissionResult \<times> InMemoryStore" where
  "handleDirectSubmission rng now s req pool =
     (let realTokenCount = length (sr_matchTokens req);
          real = map (directPreference rng now req pool)
                   (zip [0..<realTokenCount] (sr_matchTokens req));
          s1 = insertAll s real;
          decoys = generateDecoyTokens rng;
          s2 = insertAll s1 (map (directDecoy rng now req pool)
                   (zip [realTokenCount..<realTokenCount + length decoys] decoys))
      in (\<lparr> success = True, preferenceIds = map pref_id real, phase = Reveal \<rparr>, s2))"

definition submitPreferences ::
  "primitives \<Rightarrow> Random \<Rightarrow> int \<Rightarrow> InMemoryStore \<Rightarrow> SubmitPreferencesRequest
     \<Rightarrow> (error + SubmissionResult) \<times> InMemoryStore" where
  "submitPreferences prim rng now s req =
     (case requirePool s (sr_poolId req) of
        Inl e \<Rightarrow> (Inl e, s)
      | Inr pool \<Rightarrow>
     (case updatePoolStatus now s (pool_id pool) of
        (Inl e, s1) \<Rightarrow> (Inl e, s1)
      | (Inr _, s1) \<Rightarrow>
     (case validateSubmission now s1 req pool of
        Inl e \<Rightarrow> (Inl e, s1)
      | Inr _ \<Rightarrow>
          (let st = getEffectiveStatus now pool in
           if st = Commit then
             (let (r, s2) = handleCommitSubmission prim rng now s1 req pool in (Inr r, s2))
           else if st = Open \<or> st = Reveal then
             (let (r, s2) = handleDirectSubmission rng now s1 req pool in (Inr r, s2))
           else (Inl (RendezvousError POOL_CLOSED), s1)))))"

text \<open>\<open>new Set(array)\<close> keeps the first occurrence of each element, in order.\<close>

definition jsSet :: "'a list \<Rightarrow> 'a list" where
  "jsSet xs = rev (remdups (rev xs))"

text \<open>\<open>pref.commitHash && verifyCommitment(token, pref.commitHash)\<close>\<close>

definition commitMatches :: "primitives \<Rightarrow> Preference \<Rightarrow> string \<Rightarrow> bool" where
  "commitMatches prim pref tok =
     (case commitHash pref of
        None \<Rightarrow> False
      | Some c \<Rightarrow> c \<noteq> [] \<and> verifyCommitment prim tok c)"

text \<open>\<open>pref.commitHash && pref.matchToken && verifyCommitment(pref.matchToken, pref.commitHash)\<close>\<close>

definition selfVerifies :: "primitives \<Rightarrow> Preference \<Rightarrow> bool" where
  "selfVerifies prim pref =
     (case commitHash pref of
        None \<Rightarrow> False
      | Some c \<Rightarrow> c \<noteq> [] \<and> matchToken pref \<noteq> [] \<and> verifyCommitment prim (matchToken pref) c)"

record RevealState =
  tokenSet :: "string list"
  rs_store :: InMemoryStore
  rs_revealedCount :: nat
  unmatched :: "Preference list"

text \<open>One iteration of the loop over the unrevealed preferences. The inner loop returns the
  first token of the set that verifies; \<open>if (matchedToken)\<close> is false for \<open>null\<close> and for the
  empty string.\<close>

definition revealStep :: "primitives \<Rightarrow> Preference \<Rightarrow> RevealState \<Rightarrow> RevealState" where
  "revealStep prim pref st =
     (let matchedToken = find (commitMatches prim pref) (tokenSet st) in
      if truthy matchedToken then
        (case matchedToken of
           Some t \<Rightarrow>
             st\<lparr> rs_store := updatePreferenceRevealed (rs_store st) (pref_id pref) t,
                 tokenSet := removeAll t (tokenSet st),
                 rs_revealedCount := rs_revealedCount st + 1 \<rparr>
         | None \<Rightarrow> st)
      else if selfVerifies prim pref then
        st\<lparr> rs_store := updatePreferenceRevealed (rs_store st) (pref_id pref) (matchToken pref),
            rs_revealedCount := rs_revealedCount st + 1 \<rparr>
      else st\<lparr> unmatched := unmatched st @ [pref] \<rparr>)"

definition handleReveal ::
  "primitives \<Rightarrow> InMemoryStore \<Rightarrow> RevealPreferencesRequest \<Rightarrow> Pool
     \<Rightarrow> (error + RevealResult) \<times> InMemoryStore" where
  "handleReveal prim s req pool =
     (let committed = getPreferencesByNullifier s (pool_id pool) (rr_nullifier req) in
      if committed = [] then (Inl (RendezvousError COMMITMENT_NOT_FOUND), s)
      else
        (let unrevealed = filter (\<lambda>p. \<not> revealed p) committed in
         if unrevealed = [] then (Inr \<lparr> rv_success = True, revealedCount = 0 \<rparr>, s)
         else
           (let st = fold (revealStep prim) unrevealed
                       \<lparr> tokenSet = jsSet (rr_matchTokens req), rs_store = s,
                         rs_revealedCount = 0, unmatched = [] \<rparr>
            in if tokenSet st \<noteq> []
               then (Inl (RendezvousError COMMITMENT_MISMATCH), rs_store st)
               else (Inr \<lparr> rv_success = True, revealedCount = rs_revealedCount st \<rparr>,
                     rs_store st))))"

definition revealPreferences ::
  "primitives \<Rightarrow> int \<Rightarrow> InMemoryStore \<Rightarrow> RevealPreferencesRequest
     \<Rightarrow> (error + RevealResult) \<times> InMemoryStore" where
  "revealPreferences prim now s req =
     (case requirePool s (rr_poolId req) of
        Inl e \<Rightarrow> (Inl e, s)
      | Inr pool \<Rightarrow>
     (case updatePoolStatus now s (pool_id pool) of
        (Inl e, s1) \<Rightarrow> (Inl e, s1)
      | (Inr _, s1) \<Rightarrow>
          (let st = getEffectiveStatus now pool in
           if st \<noteq> Reveal then
             (if st = Commit then (Inl (RendezvousError POOL_NOT_IN_REVEAL_PHASE), s1)
              else if st = Closed then (Inl (RendezvousError POOL_CLOSED), s1)
              else (Inl (RendezvousError POOL_NOT_IN_REVEAL_PHASE), s1))
           else handleReveal prim s1 req pool)))"

subsection \<open>Match detection (detection.ts)\<close>

text \<open>The attestation adapter is an external service: \<open>attest\<close> returns a proof or throws.\<close>

record WitnessAdapter =
  attest :: "string \<Rightarrow> error + WitnessProof"

text \<open>\<open>computeMatchDataHash\<close> sorts the array it is given in place (\<open>matchedTokens.sort()\<close>,
  the order of the code units), so the caller's \<open>matchedTokens\<close> is sorted from then on.\<close>

definition computeMatchDataHash :: "primitives \<Rightarrow> string \<Rightarrow> string list \<Rightarrow> nat \<Rightarrow> string" where
  "computeMatchDataHash prim poolId sortedTokens participantCount =
     bytesToHex (sha256 prim
       (encode (stringifyMatchData prim poolId sortedTokens participantCount ''rendezvous-v1'')))"

text \<open>\<open>detectMatches\<close> returns its result or error, the store, and the list of the hashes it
  passed to \<open>attest\<close>.\<close>

definition detectMatches ::
  "primitives \<Rightarrow> WitnessAdapter option \<Rightarrow> int \<Rightarrow> InMemoryStore \<Rightarrow> string
     \<Rightarrow> (error + MatchResult) \<times> InMemoryStore \<times> string list" where
  "detectMatches prim witness now s poolId =
     (case requirePool s poolId of
        Inl e \<Rightarrow> (Inl e, s, [])
      | Inr pool \<Rightarrow>
     (case updatePoolStatus now s (pool_id pool) of
        (Inl e, s1) \<Rightarrow> (Inl e, s1, [])
      | (Inr _, s1) \<Rightarrow>
          if \<not> isClosed now pool then (Inl (RendezvousError POOL_CLOSED), s1, [])
          else
            (case getMatchResult s1 poolId of
               Some existingResult \<Rightarrow> (Inr existingResult, s1, [])
             | None \<Rightarrow>
                 (let tokenCounts = countTokenOccurrences s1 poolId;
                      matched = sort (map fst (filter (\<lambda>(t, c). c = 2) tokenCounts));
                      prefs = getPreferencesByPoolId s1 poolId;
                      uniqueNullifiers = jsSet (map nullifier prefs);
                      matchDataHash =
                        computeMatchDataHash prim poolId matched (length uniqueNullifiers);
                      mk = (\<lambda>wp. \<lparr> mr_poolId = poolId, matchedTokens = matched,
                                    totalSubmissions = length (filter revealed prefs),
                                    uniqueParticipants = length uniqueNullifiers,
                                    detectedAt = now, witnessProof = wp \<rparr>)
                  in case witness of
                       None \<Rightarrow> (Inr (mk None), insertMatchResult s1 (mk None), [])
                     | Some w \<Rightarrow>
                         (case attest w matchDataHash of
                            Inl e \<Rightarrow> (Inl e, s1, [matchDataHash])
                          | Inr wp \<Rightarrow>
                              (Inr (mk (Some wp)), insertMatchResult s1 (mk (Some wp)),
                               [matchDataHash]))))))"

text \<open>\<open>discoverMyMatches\<close>: the loop over the selected public keys; a key for which
  \<open>deriveMatchToken\<close> throws ends the call with that error.\<close>

fun discoverLoop ::
  "primitives \<Rightarrow> string list \<Rightarrow> string \<Rightarrow> string \<Rightarrow> string list \<Rightarrow> error + DiscoveredMatch list" where
  "discoverLoop prim matched poolId myPrivateKey [] = Inr []"
| "discoverLoop prim matched poolId myPrivateKey (theirPubKey # rest) =
     (case deriveMatchToken prim myPrivateKey theirPubKey poolId of
        Inl e \<Rightarrow> Inl e
      | Inr tok \<Rightarrow>
          (case discoverLoop prim matched poolId myPrivateKey rest of
             Inl e \<Rightarrow> Inl e
           | Inr ds \<Rightarrow>
               Inr (if tok \<in> set matched
                    then \<lparr> matchedPublicKey = theirPubKey, dm_matchToken = tok,
                           dm_poolId = poolId \<rparr> # ds
                    else ds)))"

definition discoverMyMatches ::
  "primitives \<Rightarrow> InMemoryStore \<Rightarrow> string \<Rightarrow> string \<Rightarrow> string list \<Rightarrow> error + DiscoveredMatch list" where
  "discoverMyMatches prim s poolId myPrivateKey selectedPublicKeys =
     (case getMatchResult s poolId of
        None \<Rightarrow> Inl (RendezvousError POOL_NOT_FOUND)
      | Some result \<Rightarrow>
          discoverLoop prim (jsSet (matchedTokens result)) poolId myPrivateKey selectedPublicKeys)"

subsection \<open>Gate evaluation (gates/index.ts)\<close>

datatype Operator = OpAnd | OpOr

datatype VoterGate =
    OpenGate
  | InviteListGate "string list"
  | FreebirdGate string
  | CompositeGate Operator "VoterGate list"

record GateContext =
  participantKey :: "string option"
  freebirdProof :: "FreebirdProof option"
  gc_poolId :: string

record GateResult =
  eligible :: bool
  reason :: string

text \<open>The verifier adapter: \<open>verify\<close> resolves to a boolean or rejects with an error (\<open>Inl\<close> of
  its text); \<open>isExpired\<close> is synchronous.\<close>

record FreebirdAdapter =
  verify :: "FreebirdProof \<Rightarrow> string + bool"
  isExpired :: "FreebirdProof \<Rightarrow> bool"

text \<open>The first part of \<open>GateSystem.evaluate\<close>: with a proof in the context and an adapter
  configured, the proof is verified before the gate is looked at. The result is an error, an
  early gate result, or nothing.\<close>

definition preVerify :: "FreebirdAdapter option \<Rightarrow> GateContext \<Rightarrow> error + GateResult option" where
  "preVerify fb ctx =
     (case (freebirdProof ctx, fb) of
        (Some prf, Some adapter) \<Rightarrow>
          (case verify adapter prf of
             Inl msg \<Rightarrow> Inl (ThrownError msg)
           | Inr proofValid \<Rightarrow>
               if \<not> proofValid then Inr (Some \<lparr> eligible = False, reason = ''Invalid Freebird proof'' \<rparr>)
               else if isExpired adapter prf
                 then Inr (Some \<lparr> eligible = False, reason = ''Freebird proof expired'' \<rparr>)
               else Inr None)
      | _ \<Rightarrow> Inr None)"

definition evaluateOpen :: "GateResult" where
  "evaluateOpen = \<lparr> eligible = True, reason = ''Open gate - all participants eligible'' \<rparr>"

definition evaluateInviteList :: "string list \<Rightarrow> GateContext \<Rightarrow> GateResult" where
  "evaluateInviteList allowedKeys ctx =
     (case participantKey ctx of
        None \<Rightarrow> \<lparr> eligible = False, reason = ''Participant key required for invite-list gate'' \<rparr>
      | Some k \<Rightarrow>
          if k = [] then
            \<lparr> eligible = False, reason = ''Participant key required for invite-list gate'' \<rparr>
          else if k \<in> set allowedKeys
            then \<lparr> eligible = True, reason = ''Key found in invite list'' \<rparr>
            else \<lparr> eligible = False, reason = ''Key not in invite list'' \<rparr>)"

definition evaluateFreebird :: "FreebirdAdapter option \<Rightarrow> string \<Rightarrow> GateContext \<Rightarrow> GateResult" where
  "evaluateFreebird fb gateIssuerId ctx =
     (case fb of
        None \<Rightarrow> \<lparr> eligible = False, reason = ''Freebird adapter not configured'' \<rparr>
      | Some adapter \<Rightarrow>
     (case freebirdProof ctx of
        None \<Rightarrow> \<lparr> eligible = False, reason = ''Freebird token required for this pool'' \<rparr>
      | Some prf \<Rightarrow>
          if issuerId prf \<noteq> gateIssuerId
            then \<lparr> eligible = False, reason = ''Token must be from issuer: '' @ gateIssuerId \<rparr>
          else if isExpired adapter prf
            then \<lparr> eligible = False, reason = ''Freebird token has expired'' \<rparr>
          else
            (case verify adapter prf of
               Inr isValid \<Rightarrow>
                 if isValid then \<lparr> eligible = True, reason = ''Valid Freebird token'' \<rparr>
                 else \<lparr> eligible = False, reason = ''Invalid Freebird token'' \<rparr>
             | Inl msg \<Rightarrow>
                 \<lparr> eligible = False, reason = ''Freebird verification failed: '' @ msg \<rparr>)))"

text \<open>\<open>GateSystem.evaluate\<close> with the evaluator it dispatches to, and the loop of
  \<open>CompositeGateEvaluator.evaluate\<close> over the sub-gates, which calls back into
  \<open>GateSystem.evaluate\<close>.\<close>

fun evaluate :: "FreebirdAdapter option \<Rightarrow> VoterGate \<Rightarrow> GateContext \<Rightarrow> error + GateResult"
and evaluateSubGates ::
  "FreebirdAdapter option \<Rightarrow> Operator \<Rightarrow> VoterGate list \<Rightarrow> GateContext \<Rightarrow> error + GateResult" where
  "evaluate fb OpenGate ctx =
     (case preVerify fb ctx of
        Inl e \<Rightarrow> Inl e
      | Inr (Some r) \<Rightarrow> Inr r
      | Inr None \<Rightarrow> Inr evaluateOpen)"
| "evaluate fb (InviteListGate allowedKeys) ctx =
     (case preVerify fb ctx of
        Inl e \<Rightarrow> Inl e
      | Inr (Some r) \<Rightarrow> Inr r
      | Inr None \<Rightarrow> Inr (evaluateInviteList allowedKeys ctx))"
| "evaluate fb (FreebirdGate gateIssuerId) ctx =
     (case preVerify fb ctx of
        Inl e \<Rightarrow> Inl e
      | Inr (Some r) \<Rightarrow> Inr r
      | Inr None \<Rightarrow> Inr (evaluateFreebird fb gateIssuerId ctx))"
| "evaluate fb (CompositeGate operator gates) ctx =
     (case preVerify fb ctx of
        Inl e \<Rightarrow> Inl e
      | Inr (Some r) \<Rightarrow> Inr r
      | Inr None \<Rightarrow>
          if gates = [] then Inr \<lparr> eligible = False, reason = ''Composite gate has no sub-gates'' \<rparr>
          else evaluateSubGates fb operator gates ctx)"
| "evaluateSubGates fb operator [] ctx =
     (if operator = OpAnd then Inr \<lparr> eligible = True, reason = ''All AND sub-gates passed'' \<rparr>
      else Inr \<lparr> eligible = False, reason = ''No OR sub-gates passed'' \<rparr>)"
| "evaluateSubGates fb operator (subGate # rest) ctx =
     (case evaluate fb subGate ctx of
        Inl e \<Rightarrow> Inl e
      | Inr result \<Rightarrow>
          if operator = OpAnd \<and> \<not> eligible result
            then Inr \<lparr> eligible = False, reason = ''AND gate failed: '' @ reason result \<rparr>
          else if operator = OpOr \<and> eligible result
            then Inr \<lparr> eligible = True, reason = ''OR gate passed: '' @ reason result \<rparr>
          else evaluateSubGates fb operator rest ctx)"

subsection \<open>Reveal outcomes\<close>

text \<open>
  An iteration of the reveal loop ends in one of three ways: the preference is revealed with a
  token of the caller, it is revealed with its stored token, or it is left as it was.
  \<open>branchTaken\<close> is the branch that \<open>revealStep\<close> takes, \<open>branches\<close> the branches of a whole loop;
  \<open>consume\<close> and \<open>applyOutcome\<close> are the effect of a branch on the token set and on the store.

  \<open>spec_choice\<close> and \<open>spec_reveal\<close> follow the words of the specification instead: if one of
  the user-supplied tokens hashes to the preference's commit, that token is written and removed
  from the candidate set; otherwise, if the stored token itself hashes to the commit, the
  preference is revealed with the stored token.
\<close>

datatype RevealOutcome = ByUserToken string | ByStoredToken | Unmatched

fun consume :: "RevealOutcome \<Rightarrow> string list \<Rightarrow> string list" where
  "consume (ByUserToken t) cs = removeAll t cs"
| "consume ByStoredToken cs = cs"
| "consume Unmatched cs = cs"

fun applyOutcome :: "Preference \<times> RevealOutcome \<Rightarrow> InMemoryStore \<Rightarrow> InMemoryStore" where
  "applyOutcome (p, ByUserToken t) s = updatePreferenceRevealed s (pref_id p) t"
| "applyOutcome (p, ByStoredToken) s = updatePreferenceRevealed s (pref_id p) (matchToken p)"
| "applyOutcome (p, Unmatched) s = s"

definition branchTaken :: "primitives \<Rightarrow> Preference \<Rightarrow> string list \<Rightarrow> RevealOutcome" where
  "branchTaken prim p cs =
     (case find (commitMatches prim p) cs of
        Some t \<Rightarrow>
          if t \<noteq> [] then ByUserToken t
          else if selfVerifies prim p then ByStoredToken else Unmatched
      | None \<Rightarrow> if selfVerifies prim p then ByStoredToken else Unmatched)"

fun branches :: "primitives \<Rightarrow> string list \<Rightarrow> Preference list \<Rightarrow> RevealOutcome list" where
  "branches prim cs [] = []"
| "branches prim cs (p # ps) =
     branchTaken prim p cs # branches prim (consume (branchTaken prim p cs) cs) ps"

definition spec_choice :: "primitives \<Rightarrow> Preference \<Rightarrow> string list \<Rightarrow> RevealOutcome" where
  "spec_choice prim p cs =
     (case find (commitMatches prim p) cs of
        Some t \<Rightarrow> ByUserToken t
      | None \<Rightarrow> if selfVerifies prim p then ByStoredToken else Unmatched)"

fun spec_reveal :: "primitives \<Rightarrow> string list \<Rightarrow> Preference list \<Rightarrow> RevealOutcome list" where
  "spec_reveal prim cs [] = []"
| "spec_reveal prim cs (p # ps) =
     spec_choice prim p cs # spec_reveal prim (consume (spec_choice prim p cs) cs) ps"

text \<open>The invariant of the \<open>preferences\<close> map: one entry per key, each preference under its
  own id. \<open>insertPreference\<close> and \<open>updatePreferenceRevealed\<close> keep it.\<close>

definition keyedById :: "InMemoryStore \<Rightarrow> bool" where
  "keyedById s = (distinct (map fst (preferences s))
                   \<and> list_all (\<lambda>kp. pref_id (snd kp) = fst kp) (preferences s))"

text \<open>The stored preference after an outcome, and the caller's tokens that a list of outcomes
  has written.\<close>

definition revealedAs :: "Preference \<Rightarrow> RevealOutcome \<Rightarrow> Preference" where
  "revealedAs p b =
     (case b of
        ByUserToken t \<Rightarrow> p\<lparr>revealed := True, matchToken := t\<rparr>
      | ByStoredToken \<Rightarrow> p\<lparr>revealed := True, matchToken := matchToken p\<rparr>
      | Unmatched \<Rightarrow> p)"

definition userTokens :: "RevealOutcome list \<Rightarrow> string list" where
  "userTokens bs = concat (map (\<lambda>b. case b of ByUserToken t \<Rightarrow> [t] | _ \<Rightarrow> []) bs)"

subsection \<open>Sample values\<close>

text \<open>Concrete primitives and data on which the theorems below are instantiated. The sample
  digest pads or cuts its input to 32 bytes; the sample key agreement multiplies byte sums.\<close>

definition toy_prim :: primitives where
  "toy_prim =
     \<lparr> sha256 = (\<lambda>m. take 32 (m @ replicate 32 0)),
       x25519_getPublicKey = (\<lambda>sk. [sum_list sk]),
       x25519_scalarMult = (\<lambda>sk pk. Some [sum_list sk * sum_list pk]),
       stringifyMatchData = (\<lambda>poolId toks n v. poolId @ concat toks @ replicate n CHR ''i'' @ v) \<rparr>"

definition pool_cr :: Pool where
  "pool_cr = \<lparr> pool_id = ''pool-1'', commitDeadline = Some 100, revealDeadline = 200,
               maxPreferencesPerParticipant = None, status = Commit, updatedAt = 0 \<rparr>"

definition sample_pref :: "string \<Rightarrow> string \<Rightarrow> string \<Rightarrow> string option \<Rightarrow> bool \<Rightarrow> Preference" where
  "sample_pref ident nf tok ch isRevealed =
     \<lparr> pref_id = ident, pref_poolId = ''pool-1'', matchToken = tok, commitHash = ch,
       revealed = isRevealed, submittedAt = 10, eligibilityProof = None, nullifier = nf,
       encryptedReveal = None \<rparr>"

definition pool_direct :: Pool where
  "pool_direct = \<lparr> pool_id = ''pool-1'', commitDeadline = None, revealDeadline = 200,
                   maxPreferencesPerParticipant = None, status = Open, updatedAt = 0 \<rparr>"

definition store_direct :: InMemoryStore where
  "store_direct =
     \<lparr> pools = [(''pool-1'', pool_direct)],
       preferences =
         [(''a1'', sample_pref ''a1'' ''n-alice'' ''AB'' None True),
          (''a2'', sample_pref ''a2'' ''n-alice'' ''D'' None True),
          (''b1'', sample_pref ''b1'' ''n-bob'' ''AB'' None True),
          (''b2'', sample_pref ''b2'' ''n-bob'' ''D'' None True),
          (''c1'', sample_pref ''c1'' ''n-carol'' ''C'' None True),
          (''c2'', sample_pref ''c2'' ''n-carol'' ''D'' None True),
          (''u1'', sample_pref ''u1'' ''n-dave'' ''C'' (Some ''x'') False)],
       matchResults = [] \<rparr>"

definition sample_witness :: WitnessAdapter where
  "sample_witness =
     \<lparr> attest = (\<lambda>h. Inr \<lparr> wp_hash = h, wp_timestamp = 1, networkId = ''mock-network'',
                            wp_sequence = 0 \<rparr>) \<rparr>"



definition sample_sk :: string where
  "sample_sk = privateKey (generateKeypair toy_prim [3, 4])"

definition sample_pk1 :: string where
  "sample_pk1 = publicKey (generateKeypair toy_prim [5])"

definition sample_pk2 :: string where
  "sample_pk2 = publicKey (generateKeypair toy_prim [9])"

definition store_published :: InMemoryStore where
  "store_published =
     \<lparr> pools = [], preferences = [],
       matchResults = [(''pool-1'',
          \<lparr> mr_poolId = ''pool-1'',
            matchedTokens = [projr (deriveMatchToken toy_prim sample_sk sample_pk1 ''pool-1'')],
            totalSubmissions = 2, uniqueParticipants = 2, detectedAt = 300,
            witnessProof = None \<rparr>)] \<rparr>"

definition sample_submit :: SubmitPreferencesRequest where
  "sample_submit =
     \<lparr> sr_poolId = ''pool-1'', sr_matchTokens = [replicate 64 CHR ''a''],
       sr_commitHashes = None, sr_eligibilityProof = None, sr_nullifier = ''n-alice'',
       sr_revealData = None \<rparr>"

definition sample_rng :: Random where
  "sample_rng =
     \<lparr> mathRandom = (2 ^ 52, 53),
       randomBytes = (\<lambda>i. replicate 32 (of_nat i)),
       uuidv4 = (\<lambda>i. ''id-'' @ replicate i CHR ''x'') \<rparr>"

definition failing_adapter :: FreebirdAdapter where
  "failing_adapter = \<lparr> verify = (\<lambda>prf. Inl ''connect ECONNREFUSED''), isExpired = (\<lambda>prf. False) \<rparr>"

definition sample_proof :: FreebirdProof where
  "sample_proof = \<lparr> tokenValue = ''dG9rZW4='', expiration = 1000, issuerId = ''issuer-1'',
                    epoch = None \<rparr>"

definition sample_ctx :: GateContext where
  "sample_ctx = \<lparr> participantKey = Some ''05'', freebirdProof = Some sample_proof,
                  gc_poolId = ''pool-1'' \<rparr>"

definition store_commit :: InMemoryStore where
  "store_commit = \<lparr> pools = [(''pool-1'', pool_cr)], preferences = [], matchResults = [] \<rparr>"

definition store_reveal :: InMemoryStore where
  "store_reveal =
     \<lparr> pools = [(''pool-1'', pool_cr)],
       preferences =
         [(''r1'', sample_pref ''r1'' ''n-alice'' ''T1'' (Some (commitToken toy_prim ''T1'')) False),
          (''d1'', sample_pref ''d1'' ''n-alice'' ''D1'' (Some (commitToken toy_prim ''D1'')) False),
          (''x1'', sample_pref ''x1'' ''n-bob'' ''T2'' (Some (commitToken toy_prim ''T2'')) False)],
       matchResults = [] \<rparr>"




definition store_all_revealed :: InMemoryStore where
  "store_all_revealed =
     \<lparr> pools = [(''pool-1'', pool_cr)],
       preferences =
         [(''r1'', sample_pref ''r1'' ''n-alice'' ''T1'' (Some (commitToken toy_prim ''T1'')) True)],
       matchResults = [] \<rparr>"

definition reveal_only_junk :: RevealPreferencesRequest where
  "reveal_only_junk = \<lparr> rr_poolId = ''pool-1'', rr_matchTokens = [''junk''],
                        rr_nullifier = ''n-alice'' \<rparr>"

definition reveal_t1 :: RevealPreferencesRequest where
  "reveal_t1 = \<lparr> rr_poolId = ''pool-1'', rr_matchTokens = [''T1''], rr_nullifier = ''n-alice'' \<rparr>"

section \<open>Properties\<close>

subsection \<open>Hex encoding and constant-time comparison\<close>

lemma asciiToBase16_hexChar: "n < 16 \<Longrightarrow> asciiToBase16 (hexChar n) = Some n"
proof -
  assume "n < 16"
  then have "n \<in> set [0, 1, 2, 3, 4, 5, 6, 7, 8, 9, 10, 11, 12, 13, 14, 15]"
    by simp arith
  then show ?thesis
    by (auto simp: asciiToBase16_def hexChar_def)
qed

lemma byte_nibbles: "(of_nat (unat b div 16 * 16 + unat b mod 16) :: byte) = b"
  by simp

lemma hexToBytes_bytesToHex: "hexToBytes (bytesToHex bs) = Some bs"
proof (induction bs)
  case Nil
  show ?case by (simp add: bytesToHex_def)
next
  case (Cons b bs)
  have hi: "unat b div 16 < 16"
  proof -
    have "unat b < 256" using unsigned_less [of b] by simp
    then show ?thesis by simp
  qed
  have lo: "unat b mod 16 < 16" by simp
  have "bytesToHex (b # bs) = hexChar (unat b div 16) # hexChar (unat b mod 16) # bytesToHex bs"
    by (simp add: bytesToHex_def)
  then show ?case
    using Cons.IH asciiToBase16_hexChar [OF hi] asciiToBase16_hexChar [OF lo]
    by (simp add: byte_nibbles)
qed

lemma length_bytesToHex: "length (bytesToHex bs) = 2 * length bs"
  by (induction bs) (simp_all add: bytesToHex_def)

lemma fold_or_xor_zero:
  "length a = length b \<Longrightarrow>
   (fold (\<lambda>(x, y) result. result OR ((of_char x :: nat) XOR of_char y)) (zip a b) r = 0)
     = (r = 0 \<and> a = b)"
proof (induction a b arbitrary: r rule: list_induct2)
  case Nil
  show ?case by simp
next
  case (Cons x xs y ys)
  have "(of_char x :: nat) = of_char y" if "((of_char x :: nat) XOR of_char y) = 0"
    by (metis that xor.assoc xor_self_eq xor.left_neutral xor.right_neutral)
  then have "((of_char x :: nat) XOR of_char y) = 0 \<longleftrightarrow> x = y"
    by auto
  then show ?case using Cons by (auto simp: or_eq_0_iff)
qed

lemma constantTimeEqual_iff: "constantTimeEqual a b \<longleftrightarrow> a = b"
  using fold_or_xor_zero [of a b 0] by (auto simp: constantTimeEqual_def)


subsection \<open>Pool status\<close>

text \<open>
  C3. For every pool and every current time, the effective status is closed if the stored status
  is closed or the reveal deadline has been reached; otherwise reveal if a commit deadline is set
  and has been reached; otherwise commit if a commit deadline is set; otherwise open. It depends
  only on the stored status, the two deadlines and the current time, and closed is absorbing: a
  stored closed status gives closed, once the effective status is closed it is closed at every
  later time, and \<open>updatePoolStatus\<close> leaves a pool stored as closed as it is.
\<close>

theorem getEffectiveStatus_cases:
  "getEffectiveStatus now pool =
     (if status pool = Closed \<or> now \<ge> revealDeadline pool then Closed
      else if commitDeadline pool \<noteq> None \<and> now \<ge> the (commitDeadline pool) then Reveal
      else if commitDeadline pool \<noteq> None then Commit
      else Open)
   \<and> (\<forall>pool'. status pool' = status pool \<and> commitDeadline pool' = commitDeadline pool
          \<and> revealDeadline pool' = revealDeadline pool
          \<longrightarrow> getEffectiveStatus now pool' = getEffectiveStatus now pool)
   \<and> (status pool = Closed \<longrightarrow> getEffectiveStatus now pool = Closed)
   \<and> (\<forall>later. getEffectiveStatus now pool = Closed \<and> now \<le> later
          \<longrightarrow> getEffectiveStatus later pool = Closed)
   \<and> (\<forall>s poolId later. getPool s poolId = Some pool \<and> status pool = Closed
          \<longrightarrow> updatePoolStatus later s poolId = (Inr pool, s))"
  by (auto simp: getEffectiveStatus_def updatePoolStatus_def requirePool_def
        split: option.splits if_splits)

theorem getEffectiveStatus_cases_witness:
  "getEffectiveStatus 150 pool_cr = Reveal
   \<and> getEffectiveStatus 150 (pool_cr\<lparr>pool_id := ''other'', updatedAt := 7\<rparr>) = getEffectiveStatus 150 pool_cr
   \<and> getEffectiveStatus 150 (pool_cr\<lparr>status := Closed\<rparr>) = Closed
   \<and> getEffectiveStatus 200 pool_cr = Closed \<and> getEffectiveStatus 5000 pool_cr = Closed"
proof -
  note t = getEffectiveStatus_cases
  have a: "getEffectiveStatus 150 pool_cr = Reveal"
    using t [of 150 pool_cr] by (simp add: pool_cr_def)
  have b: "getEffectiveStatus 150 (pool_cr\<lparr>pool_id := ''other'', updatedAt := 7\<rparr>)
             = getEffectiveStatus 150 pool_cr"
    using t [of 150 pool_cr] by simp
  have c: "getEffectiveStatus 150 (pool_cr\<lparr>status := Closed\<rparr>) = Closed"
    using t [of 150 "pool_cr\<lparr>status := Closed\<rparr>"] by simp
  have d: "getEffectiveStatus 200 pool_cr = Closed"
    using t [of 200 pool_cr] by (simp add: pool_cr_def)
  have e: "getEffectiveStatus 5000 pool_cr = Closed"
    using t [of 200 pool_cr] d by simp
  show ?thesis using a b c d e by simp
qed


subsection \<open>Match-token derivation\<close>

text \<open>
  C1. For every pair of keypairs made by \<open>generateKeypair\<close> and every pool id, each party
  deriving the token from its own private key and the other's public key obtains the same value,
  and that value is the hex form of a 32-byte digest. The key agreement is the library's: its
  Diffie-Hellman law is a hypothesis.
\<close>

theorem deriveMatchToken_symmetric:
  assumes dh: "\<And>a b. length a = 32 \<Longrightarrow> length b = 32 \<Longrightarrow>
            x25519_scalarMult prim a (x25519_getPublicKey prim b)
              = x25519_scalarMult prim b (x25519_getPublicKey prim a)"
    and sha: "\<And>m. length (sha256 prim m) = 32"
    and la: "length rndA = 32" and lb: "length rndB = 32"
  shows "deriveMatchToken prim (privateKey (generateKeypair prim rndA))
             (publicKey (generateKeypair prim rndB)) poolId
           = deriveMatchToken prim (privateKey (generateKeypair prim rndB))
               (publicKey (generateKeypair prim rndA)) poolId
         \<and> (x25519_scalarMult prim rndA (x25519_getPublicKey prim rndB) \<noteq> None \<longrightarrow>
              (\<exists>tok bs. deriveMatchToken prim (privateKey (generateKeypair prim rndA))
                           (publicKey (generateKeypair prim rndB)) poolId = Inr tok
                        \<and> hexToBytes tok = Some bs \<and> length bs = 32))"
proof -
  have "deriveMatchToken prim (bytesToHex a) (bytesToHex (x25519_getPublicKey prim b)) poolId
          = (case x25519_scalarMult prim a (x25519_getPublicKey prim b) of
               None \<Rightarrow> Inl (ThrownError ''invalid private or public key received'')
             | Some shared \<Rightarrow>
                 Inr (bytesToHex (sha256 prim (shared @ encode poolId @ encode MATCH_DOMAIN))))"
    for a b
    by (simp add: deriveMatchToken_def hexToBytes_bytesToHex)
  then show ?thesis
    using dh [OF la lb] sha
    by (auto simp: generateKeypair_def hexToBytes_bytesToHex split: option.splits)
qed

theorem deriveMatchToken_symmetric_witness:
  "deriveMatchToken toy_prim (privateKey (generateKeypair toy_prim (replicate 32 3)))
       (publicKey (generateKeypair toy_prim (replicate 32 5))) ''pool-1''
     = deriveMatchToken toy_prim (privateKey (generateKeypair toy_prim (replicate 32 5)))
         (publicKey (generateKeypair toy_prim (replicate 32 3))) ''pool-1''"
proof -
  have dh: "\<And>a b. length a = 32 \<Longrightarrow> length b = 32 \<Longrightarrow>
            x25519_scalarMult toy_prim a (x25519_getPublicKey toy_prim b)
              = x25519_scalarMult toy_prim b (x25519_getPublicKey toy_prim a)"
    by (simp add: toy_prim_def mult.commute)
  have sha: "\<And>m. length (sha256 toy_prim m) = 32"
    by (simp add: toy_prim_def)
  have la: "length (replicate 32 (3::byte)) = 32" by simp
  have lb: "length (replicate 32 (5::byte)) = 32" by simp
  show ?thesis
    by (rule conjunct1 [OF deriveMatchToken_symmetric [of toy_prim, OF dh sha la lb]])
qed

subsection \<open>Match detection\<close>

lemma map_of_fold_countStep:
  "map_of (fold countStep ps acc) t =
     (case map_of acc t of
        None \<Rightarrow> (if count_list (map matchToken ps) t = 0 then None
                 else Some (count_list (map matchToken ps) t))
      | Some c \<Rightarrow> Some (c + count_list (map matchToken ps) t))"
proof (induction ps arbitrary: acc)
  case Nil
  show ?case by (simp split: option.splits)
next
  case (Cons p ps)
  have step: "map_of (countStep p acc) t =
      (if matchToken p = t
       then Some ((case map_of acc t of None \<Rightarrow> 0 | Some c \<Rightarrow> c) + 1)
       else map_of acc t)"
    by (simp add: countStep_def update_conv')
  have "map_of (fold countStep (p # ps) acc) t = map_of (fold countStep ps (countStep p acc)) t"
    by simp
  also have "\<dots> = (case map_of (countStep p acc) t of
        None \<Rightarrow> (if count_list (map matchToken ps) t = 0 then None
                 else Some (count_list (map matchToken ps) t))
      | Some c \<Rightarrow> Some (c + count_list (map matchToken ps) t))"
    by (rule Cons.IH)
  finally show ?case
    by (simp add: step split: option.splits)
qed

lemma distinct_fold_countStep:
  "distinct (map fst acc) \<Longrightarrow> distinct (map fst (fold countStep ps acc))"
  by (induction ps arbitrary: acc) (simp_all add: countStep_def distinct_update)

lemma count_list_map_filter:
  "count_list (map f xs) t = length (filter (\<lambda>x. f x = t) xs)"
  by (induction xs) auto

lemma count_list_map_sort_key:
  "count_list (map f (sort_key k xs)) t = count_list (map f xs) t"
  by (simp add: count_list_map_filter filter_sort)

lemma keys_with_value:
  assumes "distinct (map fst al)"
  shows "set (map fst (filter (\<lambda>(t, c). c = v) al)) = {t. map_of al t = Some v}"
  using assms by (force simp: map_of_eq_Some_iff)

lemma distinct_keys_filter:
  "distinct (map fst al) \<Longrightarrow> distinct (map fst (filter P al))"
  by (simp add: distinct_map_filter)

lemma countTokenOccurrences_map_of:
  assumes "poolId \<noteq> []"
  shows "map_of (countTokenOccurrences s poolId) t =
     (let n = count_list (map matchToken
                (filter (\<lambda>p. pref_poolId p = poolId \<and> revealed p) (map snd (preferences s)))) t
      in if n = 0 then None else Some n)"
proof -
  have "getPreferences s \<lparr> f_poolId = Some poolId, f_nullifier = None, f_revealed = Some True \<rparr>
          = sort_key submittedAt
              (filter (\<lambda>p. pref_poolId p = poolId \<and> revealed p) (map snd (preferences s)))"
    using assms by (simp add: getPreferences_def truthy_def Let_def conj_commute)
  then show ?thesis
    by (simp add: countTokenOccurrences_def map_of_fold_countStep count_list_map_sort_key Let_def)
qed

lemma updatePoolStatus_keeps:
  "preferences (snd (updatePoolStatus now s pid)) = preferences s"
  "matchResults (snd (updatePoolStatus now s pid)) = matchResults s"
  by (simp_all add: updatePoolStatus_def store_updatePoolStatus_def requirePool_def Let_def
        split: option.splits sum.splits)

lemma updatePoolStatus_found:
  "getPool s pid = Some pool \<Longrightarrow> \<exists>p'. fst (updatePoolStatus now s pid) = Inr p'"
  by (simp add: updatePoolStatus_def requirePool_def Let_def)

text \<open>
  C2. For a closed pool that has no match result yet, \<open>detectMatches\<close> returns a result and
  stores it under the pool, and the matched tokens of that result are exactly the tokens that
  occur twice among the revealed preferences of the pool: a token occurring once, or more than
  twice, is not among them. The pool is stored under its own, non-empty id, and the attestation
  adapter, when one is configured, answers.
\<close>

theorem detectMatches_exactly_twice:
  assumes pool: "getPool s poolId = Some pool"
    and key: "pool_id pool = poolId"
    and ne: "poolId \<noteq> []"
    and closed: "isClosed now pool"
    and fresh: "getMatchResult s poolId = None"
    and att: "\<And>w h. witness = Some w \<Longrightarrow> \<exists>wp. attest w h = Inr wp"
  shows "\<exists>r s' calls. detectMatches prim witness now s poolId = (Inr r, s', calls)
           \<and> getMatchResult s' poolId = Some r
           \<and> set (matchedTokens r) =
               {t. count_list (map matchToken
                     (filter (\<lambda>p. pref_poolId p = poolId \<and> revealed p)
                        (map snd (preferences s)))) t = 2}
           \<and> distinct (matchedTokens r)"
proof -
  define s1 where "s1 = snd (updatePoolStatus now s poolId)"
  obtain p' where up: "updatePoolStatus now s poolId = (Inr p', s1)"
    using updatePoolStatus_found [OF pool, of now] by (metis prod.collapse s1_def)
  have prefs1: "preferences s1 = preferences s" and res1: "matchResults s1 = matchResults s"
    by (simp_all add: s1_def updatePoolStatus_keeps)
  have fresh1: "getMatchResult s1 poolId = None"
    using fresh by (simp add: getMatchResult_def res1)
  define counts where "counts = countTokenOccurrences s1 poolId"
  define matched where "matched = sort (map fst (filter (\<lambda>(t, c). c = 2) counts))"
  have dist: "distinct (map fst counts)"
    by (simp add: counts_def countTokenOccurrences_def distinct_fold_countStep)
  have set_matched: "set matched =
     {t. count_list (map matchToken
           (filter (\<lambda>p. pref_poolId p = poolId \<and> revealed p) (map snd (preferences s)))) t = 2}"
    using keys_with_value [OF dist, of 2]
    by (auto simp: matched_def counts_def countTokenOccurrences_map_of [OF ne] prefs1 Let_def)
  have dist_matched: "distinct matched"
    using distinct_keys_filter [OF dist] by (simp add: matched_def)
  define mk where "mk = (\<lambda>wp. \<lparr> mr_poolId = poolId, matchedTokens = matched,
      totalSubmissions = length (filter revealed (getPreferencesByPoolId s1 poolId)),
      uniqueParticipants = length (jsSet (map nullifier (getPreferencesByPoolId s1 poolId))),
      detectedAt = now, witnessProof = wp \<rparr>)"
  have stored: "getMatchResult (insertMatchResult s1 (mk wp)) poolId = Some (mk wp)" for wp
    by (simp add: getMatchResult_def insertMatchResult_def update_conv' mk_def)
  have mt: "matchedTokens (mk wp) = matched" for wp by (simp add: mk_def)
  show ?thesis
  proof (cases witness)
    case None
    have "detectMatches prim witness now s poolId
            = (Inr (mk None), insertMatchResult s1 (mk None), [])"
      using pool key closed fresh1 up None
      by (simp add: detectMatches_def requirePool_def Let_def counts_def matched_def mk_def)
    then show ?thesis using stored set_matched dist_matched mt by auto
  next
    case (Some w)
    define h where "h = computeMatchDataHash prim poolId matched
        (length (jsSet (map nullifier (getPreferencesByPoolId s1 poolId))))"
    obtain wp where wp: "attest w h = Inr wp" using att [OF Some] by blast
    have "detectMatches prim witness now s poolId
            = (Inr (mk (Some wp)), insertMatchResult s1 (mk (Some wp)), [h])"
      using pool key closed fresh1 up Some wp
      by (simp add: detectMatches_def requirePool_def Let_def counts_def matched_def mk_def h_def)
    then show ?thesis using stored set_matched dist_matched mt by auto
  qed
qed

theorem detectMatches_exactly_twice_witness:
  "\<exists>r s' calls. detectMatches toy_prim (Some sample_witness) 300 store_direct ''pool-1''
                    = (Inr r, s', calls)
     \<and> getMatchResult s' ''pool-1'' = Some r
     \<and> set (matchedTokens r) =
         {t. count_list (map matchToken
               (filter (\<lambda>p. pref_poolId p = ''pool-1'' \<and> revealed p)
                  (map snd (preferences store_direct)))) t = 2}
     \<and> distinct (matchedTokens r)"
proof (rule detectMatches_exactly_twice)
  show "getPool store_direct ''pool-1'' = Some pool_direct"
    by (simp add: getPool_def store_direct_def)
  show "pool_id pool_direct = ''pool-1''" by (simp add: pool_direct_def)
  show "''pool-1'' \<noteq> []" by simp
  show "isClosed 300 pool_direct"
    by (simp add: isClosed_def getEffectiveStatus_def pool_direct_def)
  show "getMatchResult store_direct ''pool-1'' = None"
    by (simp add: getMatchResult_def store_direct_def)
  show "\<exists>wp. attest w h = Inr wp" if "Some sample_witness = Some w" for w h
    using that by (auto simp: sample_witness_def)
qed










subsection \<open>Local discovery\<close>

lemma set_jsSet: "set (jsSet xs) = set xs"
  by (simp add: jsSet_def)

lemma discoverLoop_all_derived:
  assumes "\<And>c. c \<in> set cs \<Longrightarrow> \<exists>tok. deriveMatchToken prim sk c poolId = Inr tok"
  shows "discoverLoop prim matched poolId sk cs =
     Inr (map (\<lambda>c. \<lparr> matchedPublicKey = c,
                      dm_matchToken = projr (deriveMatchToken prim sk c poolId),
                      dm_poolId = poolId \<rparr>)
            (filter (\<lambda>c. projr (deriveMatchToken prim sk c poolId) \<in> set matched) cs))"
  using assms
proof (induction cs)
  case Nil
  show ?case by simp
next
  case (Cons c cs)
  obtain tok where tok: "deriveMatchToken prim sk c poolId = Inr tok"
    using Cons.prems [of c] by auto
  have "discoverLoop prim matched poolId sk cs =
     Inr (map (\<lambda>c. \<lparr> matchedPublicKey = c,
                      dm_matchToken = projr (deriveMatchToken prim sk c poolId),
                      dm_poolId = poolId \<rparr>)
            (filter (\<lambda>c. projr (deriveMatchToken prim sk c poolId) \<in> set matched) cs))"
    using Cons.IH Cons.prems by simp
  then show ?case using tok by simp
qed

text \<open>
  C8. For a pool with a stored match result, a private key and a list of candidate public keys
  for each of which the token derivation succeeds, \<open>discoverMyMatches\<close> returns, in the order
  of the list, exactly the candidates whose derived token is among the matched tokens of the
  result, each paired with that token. It reads nothing of the store but the match result of
  the pool: two stores with the same result give the same answer.
\<close>

theorem discoverMyMatches_exact:
  assumes res: "getMatchResult s poolId = Some result"
    and derived: "\<And>c. c \<in> set candidates \<Longrightarrow> \<exists>tok. deriveMatchToken prim sk c poolId = Inr tok"
  shows "discoverMyMatches prim s poolId sk candidates =
           Inr (map (\<lambda>c. \<lparr> matchedPublicKey = c,
                            dm_matchToken = projr (deriveMatchToken prim sk c poolId),
                            dm_poolId = poolId \<rparr>)
                  (filter (\<lambda>c. projr (deriveMatchToken prim sk c poolId)
                                  \<in> set (matchedTokens result)) candidates))
         \<and> (\<forall>s2. getMatchResult s2 poolId = getMatchResult s poolId \<longrightarrow>
               discoverMyMatches prim s2 poolId sk candidates
                 = discoverMyMatches prim s poolId sk candidates)"
  using res discoverLoop_all_derived [OF derived, of candidates "jsSet (matchedTokens result)"]
  by (simp add: discoverMyMatches_def set_jsSet)

theorem discoverMyMatches_exact_witness:
  "discoverMyMatches toy_prim store_published ''pool-1'' sample_sk [sample_pk2, sample_pk1] =
     Inr [\<lparr> matchedPublicKey = sample_pk1,
            dm_matchToken = projr (deriveMatchToken toy_prim sample_sk sample_pk1 ''pool-1''),
            dm_poolId = ''pool-1'' \<rparr>]"
proof -
  have res: "getMatchResult store_published ''pool-1'' =
      Some \<lparr> mr_poolId = ''pool-1'',
             matchedTokens = [projr (deriveMatchToken toy_prim sample_sk sample_pk1 ''pool-1'')],
             totalSubmissions = 2, uniqueParticipants = 2, detectedAt = 300,
             witnessProof = None \<rparr>"
    by (simp add: getMatchResult_def store_published_def)
  have derived: "\<exists>tok. deriveMatchToken toy_prim sample_sk c ''pool-1'' = Inr tok"
    if "c \<in> set [sample_pk2, sample_pk1]" for c
    using that
    by (auto simp: deriveMatchToken_def sample_sk_def sample_pk1_def sample_pk2_def
          generateKeypair_def hexToBytes_bytesToHex toy_prim_def)
  have differ: "projr (deriveMatchToken toy_prim sample_sk sample_pk2 ''pool-1'')
                  \<noteq> projr (deriveMatchToken toy_prim sample_sk sample_pk1 ''pool-1'')"
    by code_simp
  show ?thesis
    using conjunct1 [OF discoverMyMatches_exact
        [where candidates = "[sample_pk2, sample_pk1]", OF res derived]] differ
    by simp
qed

subsection \<open>Submission\<close>

lemma getPreferencesByNullifier_eq:
  assumes "poolId \<noteq> []" and "nf \<noteq> []"
  shows "getPreferencesByNullifier s poolId nf =
           sort_key submittedAt
             (filter (\<lambda>p. pref_poolId p = poolId \<and> nullifier p = nf) (map snd (preferences s)))"
  using assms
  by (simp add: getPreferencesByNullifier_def getPreferences_def truthy_def Let_def conj_commute)

lemma hasSubmitted_iff:
  assumes "poolId \<noteq> []" and "nf \<noteq> []"
  shows "hasSubmitted s poolId nf \<longleftrightarrow>
           (\<exists>p \<in> set (map snd (preferences s)). pref_poolId p = poolId \<and> nullifier p = nf)"
  by (auto simp: hasSubmitted_def countPreferencesByNullifier_def
        getPreferencesByNullifier_eq [OF assms] filter_empty_conv)

text \<open>
  C4. When a preference is already stored under a pool and a nullifier, a call of
  \<open>submitPreferences\<close> for that pool with that nullifier fails with \<open>DUPLICATE_NULLIFIER\<close>,
  whatever the state of the pool and the rest of the request, and the stored preferences are
  unchanged. The pool is stored under its own id; ids and nullifiers are non-empty strings.
\<close>

theorem submitPreferences_duplicate_nullifier:
  assumes pool: "getPool s (sr_poolId req) = Some pool"
    and key: "pool_id pool = sr_poolId req"
    and ne: "sr_poolId req \<noteq> []"
    and nn: "sr_nullifier req \<noteq> []"
    and mem: "p \<in> set (map snd (preferences s))"
    and pp: "pref_poolId p = sr_poolId req"
    and pn: "nullifier p = sr_nullifier req"
  shows "fst (submitPreferences prim rng now s req) = Inl (RendezvousError DUPLICATE_NULLIFIER)
         \<and> preferences (snd (submitPreferences prim rng now s req)) = preferences s"
proof -
  define s1 where "s1 = snd (updatePoolStatus now s (sr_poolId req))"
  obtain p' where up: "updatePoolStatus now s (sr_poolId req) = (Inr p', s1)"
    using updatePoolStatus_found [OF pool, of now] by (metis prod.collapse s1_def)
  have prefs1: "preferences s1 = preferences s"
    by (simp add: s1_def updatePoolStatus_keeps)
  have "hasSubmitted s1 (sr_poolId req) (sr_nullifier req)"
    using mem pp pn by (auto simp: hasSubmitted_iff [OF ne nn] prefs1)
  then have "validateSubmission now s1 req pool = Inl (RendezvousError DUPLICATE_NULLIFIER)"
    using nn key by (simp add: validateSubmission_def)
  then have "submitPreferences prim rng now s req = (Inl (RendezvousError DUPLICATE_NULLIFIER), s1)"
    using pool key up by (simp add: submitPreferences_def requirePool_def)
  then show ?thesis by (simp add: prefs1)
qed

theorem submitPreferences_duplicate_nullifier_witness:
  "fst (submitPreferences toy_prim sample_rng 50 store_direct sample_submit)
     = Inl (RendezvousError DUPLICATE_NULLIFIER)
   \<and> preferences (snd (submitPreferences toy_prim sample_rng 50 store_direct sample_submit))
     = preferences store_direct"
proof (rule submitPreferences_duplicate_nullifier)
  show "getPool store_direct (sr_poolId sample_submit) = Some pool_direct"
    by (simp add: getPool_def store_direct_def sample_submit_def)
  show "pool_id pool_direct = sr_poolId sample_submit"
    by (simp add: pool_direct_def sample_submit_def)
  show "sr_poolId sample_submit \<noteq> []" by (simp add: sample_submit_def)
  show "sr_nullifier sample_submit \<noteq> []" by (simp add: sample_submit_def)
  show "sample_pref ''a1'' ''n-alice'' ''AB'' None True \<in> set (map snd (preferences store_direct))"
    by (simp add: store_direct_def store_direct_def)
  show "pref_poolId (sample_pref ''a1'' ''n-alice'' ''AB'' None True) = sr_poolId sample_submit"
    by (simp add: sample_pref_def sample_submit_def)
  show "nullifier (sample_pref ''a1'' ''n-alice'' ''AB'' None True) = sr_nullifier sample_submit"
    by (simp add: sample_pref_def sample_submit_def)
qed

subsection \<open>Gate evaluation\<close>

lemma preVerify_total:
  assumes "\<And>a fp. fb = Some a \<Longrightarrow> \<exists>b. verify a fp = Inr b"
  shows "\<exists>r. preVerify fb ctx = Inr r"
proof (cases "freebirdProof ctx")
  case None
  then show ?thesis by (simp add: preVerify_def)
next
  case hasProof: (Some fp)
  show ?thesis
  proof (cases fb)
    case None
    then show ?thesis using hasProof by (simp add: preVerify_def)
  next
    case (Some a)
    obtain b where "verify a fp = Inr b" using assms [OF Some] by blast
    then show ?thesis using Some hasProof
      by (simp add: preVerify_def)
  qed
qed

lemma evaluate_total:
  assumes "\<And>a fp. fb = Some a \<Longrightarrow> \<exists>b. verify a fp = Inr b"
  shows "\<exists>r. evaluate fb gate ctx = Inr r"
    and "\<exists>r. evaluateSubGates fb operator gates ctx = Inr r"
  using assms
proof (induction fb gate ctx and fb operator gates ctx rule: evaluate_evaluateSubGates.induct)
  case (1 fb ctx)
  obtain r where "preVerify fb ctx = Inr r" using preVerify_total [OF "1.prems"] by blast
  then show ?case by (cases r) simp_all
next
  case (2 fb allowedKeys ctx)
  obtain r where "preVerify fb ctx = Inr r" using preVerify_total [OF "2.prems"] by blast
  then show ?case by (cases r) simp_all
next
  case (3 fb gateIssuerId ctx)
  obtain r where "preVerify fb ctx = Inr r" using preVerify_total [OF "3.prems"] by blast
  then show ?case by (cases r) simp_all
next
  case (4 fb operator gates ctx)
  obtain r where r: "preVerify fb ctx = Inr r" using preVerify_total [OF "4.prems"] by blast
  show ?case
  proof (cases r)
    case None
    then show ?thesis using r "4.IH" [OF r None] "4.prems" by (cases "gates = []") auto
  next
    case (Some early)
    then show ?thesis using r by simp
  qed
next
  case (5 fb operator ctx)
  then show ?case by simp
next
  case (6 fb operator subGate rest ctx)
  obtain result where res: "evaluate fb subGate ctx = Inr result"
    using "6.IH"(1) "6.prems" by blast
  show ?case
    using res "6.IH"(2) [OF res] "6.prems" by auto
qed

text \<open>
  C9. Gate evaluation is specified never to raise for an ineligible outcome, also when the
  verifier adapter errors. \<open>evaluate_total\<close> above gives this for an adapter whose \<open>verify\<close> never
  rejects. The theorem evaluates the code on a context that carries a token proof, with an
  adapter whose \<open>verify\<close> rejects: \<open>GateSystem.evaluate\<close> ends with the adapter's error, for a
  token gate and for the open gate alike, because the verification at its head is not guarded;
  the token-gate evaluator, which guards the same call, answers not eligible.
\<close>

theorem evaluate_throws_on_adapter_error:
  "evaluate (Some failing_adapter) (FreebirdGate ''issuer-1'') sample_ctx
     = Inl (ThrownError ''connect ECONNREFUSED'')
   \<and> evaluate (Some failing_adapter) OpenGate sample_ctx
     = Inl (ThrownError ''connect ECONNREFUSED'')
   \<and> evaluateFreebird (Some failing_adapter) ''issuer-1'' sample_ctx
     = \<lparr> eligible = False, reason = ''Freebird verification failed: connect ECONNREFUSED'' \<rparr>"
  by (simp add: preVerify_def evaluateFreebird_def failing_adapter_def sample_ctx_def
        sample_proof_def)

subsection \<open>Decoys\<close>

lemma update_fresh_key:
  "k \<notin> set (map fst al) \<Longrightarrow> AList.update k v al = al @ [(k, v)]"
  by (induction al) auto

lemma insertAll_fresh:
  assumes "distinct (map pref_id ps)"
    and "set (map pref_id ps) \<inter> set (map fst (preferences s)) = {}"
  shows "insertAll s ps = s\<lparr>preferences := preferences s @ map (\<lambda>p. (pref_id p, p)) ps\<rparr>"
  using assms
proof (induction ps arbitrary: s)
  case Nil
  show ?case by (simp add: insertAll_def)
next
  case (Cons p ps)
  have fresh: "pref_id p \<notin> set (map fst (preferences s))"
    using Cons.prems(2) by auto
  have step: "insertPreference s p = s\<lparr>preferences := preferences s @ [(pref_id p, p)]\<rparr>"
    by (simp add: insertPreference_def update_fresh_key [OF fresh])
  have "insertAll s (p # ps) = insertAll (insertPreference s p) ps"
    by (simp add: insertAll_def)
  also have "\<dots> = (insertPreference s p)
      \<lparr>preferences := preferences (insertPreference s p) @ map (\<lambda>p. (pref_id p, p)) ps\<rparr>"
  proof (rule Cons.IH)
    show "distinct (map pref_id ps)" using Cons.prems(1) by simp
    show "set (map pref_id ps) \<inter> set (map fst (preferences (insertPreference s p))) = {}"
      using Cons.prems by (auto simp: step)
  qed
  finally show ?case by (simp add: step)
qed

lemma excessBits_0: "n < 2 ^ 53 \<Longrightarrow> excessBits n = 0"
  by (simp add: excessBits.simps [of n])

lemma excessBits_Suc: "\<not> n < 2 ^ 53 \<Longrightarrow> excessBits n = Suc (excessBits (n div 2))"
  by (simp add: excessBits.simps [of n])

lemma excessBits_le: "n < 2 ^ 56 \<Longrightarrow> excessBits n \<le> 3"
  by (simp add: excessBits.simps [of n] excessBits.simps [of "n div 2"]
      excessBits.simps [of "n div 2 div 2"] excessBits.simps [of "n div 2 div 2 div 2"])

lemma roundHalfEven_lower: "n div 2 ^ s \<le> roundHalfEven n s"
  by (simp add: roundHalfEven_def Let_def)

lemma roundHalfEven_upper: "2 * (roundHalfEven n s * 2 ^ s) \<le> 2 * n + 2 ^ s"
proof -
  define q where "q = n div 2 ^ s"
  define r where "r = n mod 2 ^ s"
  have n: "n = q * 2 ^ s + r"
    unfolding q_def r_def by (rule div_mult_mod_eq [symmetric])
  have "roundHalfEven n s = (if 2 ^ s < 2 * r \<or> (2 * r = 2 ^ s \<and> odd q) then q + 1 else q)"
    by (simp add: roundHalfEven_def Let_def q_def r_def)
  then show ?thesis
    unfolding n by (auto simp: algebra_simps)
qed

text \<open>
  The rounded product with 6 is never below an integer that the exact product has reached, and
  exceeds the exact numerator by at most 4 (half of the at most three bits rounded away).
\<close>

lemma timesDouble_bounds:
  assumes d: "isUnitDouble x"
  defines "p \<equiv> fst (timesDouble (DECOY_MAX - DECOY_MIN + 1) x)"
  shows "(j * 2 ^ snd x \<le> 6 * fst x \<longrightarrow> j * 2 ^ snd x \<le> p) \<and> p \<le> 6 * fst x + 4"
proof -
  define n where "n = 6 * fst x"
  define s where "s = excessBits n"
  have p: "p = roundHalfEven n s * 2 ^ s"
    by (simp add: p_def timesDouble_def Let_def n_def s_def DECOY_MIN_def DECOY_MAX_def)
  from d have m: "fst x < 2 ^ 53" and e: "53 \<le> snd x"
    by (simp_all add: isUnitDouble_def)
  from m have "n < 2 ^ 56"
    by (simp add: n_def)
  then have s3: "s \<le> 3"
    unfolding s_def by (rule excessBits_le)
  then have "(2::nat) ^ s \<le> 2 ^ 3"
    by (intro power_increasing) simp_all
  then have s8: "(2::nat) ^ s \<le> 8"
    by simp
  have "2 * p \<le> 2 * n + 2 ^ s"
    unfolding p by (rule roundHalfEven_upper)
  with s8 have up: "p \<le> n + 4"
    by arith
  have low: "j * 2 ^ snd x \<le> p" if j: "j * 2 ^ snd x \<le> n"
  proof -
    from s3 e have se: "s \<le> snd x"
      by simp
    have pw: "(2::nat) ^ snd x = 2 ^ (snd x - s) * 2 ^ s"
      using se by (simp flip: power_add)
    from j have "j * 2 ^ (snd x - s) * 2 ^ s \<le> n"
      by (simp add: pw mult.assoc)
    then have "j * 2 ^ (snd x - s) \<le> n div 2 ^ s"
      by (simp add: less_eq_div_iff_mult_less_eq)
    also have "\<dots> \<le> roundHalfEven n s"
      by (rule roundHalfEven_lower)
    finally have "j * 2 ^ (snd x - s) * 2 ^ s \<le> roundHalfEven n s * 2 ^ s"
      by (rule mult_le_mono1)
    then show ?thesis
      by (simp add: p pw mult.assoc)
  qed
  show ?thesis
    using up low by (simp add: n_def)
qed

lemma decoyCount_lower:
  assumes "isUnitDouble x" and "j * 2 ^ snd x \<le> 6 * fst x"
  shows "3 + j \<le> decoyCount x"
proof -
  from timesDouble_bounds [OF assms(1), of j] assms(2)
  have "j * 2 ^ snd x \<le> fst (timesDouble (DECOY_MAX - DECOY_MIN + 1) x)"
    by simp
  then have "j \<le> floorDouble (timesDouble (DECOY_MAX - DECOY_MIN + 1) x)"
    by (simp add: floorDouble_def timesDouble_def Let_def less_eq_div_iff_mult_less_eq)
  then show ?thesis
    by (simp add: decoyCount_def DECOY_MIN_def)
qed

lemma decoyCount_upper:
  assumes "isUnitDouble x" and "6 * fst x + 4 < (j + 1) * 2 ^ snd x"
  shows "decoyCount x \<le> 3 + j"
proof -
  from timesDouble_bounds [OF assms(1), of j] assms(2)
  have "fst (timesDouble (DECOY_MAX - DECOY_MIN + 1) x) < (j + 1) * 2 ^ snd x"
    by simp
  then have "floorDouble (timesDouble (DECOY_MAX - DECOY_MIN + 1) x) < j + 1"
    by (simp add: floorDouble_def timesDouble_def Let_def div_less_iff_less_mult)
  then show ?thesis
    by (simp add: decoyCount_def DECOY_MIN_def)
qed

lemma decoyCount_range:
  assumes "isUnitDouble x"
  shows "3 \<le> decoyCount x \<and> decoyCount x \<le> 8"
proof -
  from assms have m: "fst x < 2 ^ 53" and e: "53 \<le> snd x"
    by (simp_all add: isUnitDouble_def)
  from e have "(2::nat) ^ 53 \<le> 2 ^ snd x"
    by (intro power_increasing) simp_all
  with m have "6 * fst x + 4 < (5 + 1) * 2 ^ snd x"
    by simp
  from decoyCount_upper [OF assms this] show ?thesis
    by (simp add: decoyCount_def DECOY_MIN_def)
qed

lemmas decoyCount_eval =
  decoyCount_def DECOY_MIN_def DECOY_MAX_def timesDouble_def floorDouble_def roundHalfEven_def
  excessBits_0 excessBits_Suc Let_def

text \<open>
  The rounding is visible at the upper end of an interval: for
  \<open>Math.random() = 7505999378950826 / 2^53\<close> the exact product lies below 5, by \<open>1 / 2^51\<close>,
  the nearest double is 5, and the call stores 8 decoys. The largest double below 1 gives 8
  as well, the smallest positive one 3.
\<close>

lemma decoyCount_rounded_up:
  "decoyCount (7505999378950826, 53) = 8 \<and> 6 * 7505999378950826 < 5 * (2::nat) ^ 53"
  by (simp add: decoyCount_eval)

lemma decoyCount_extremes:
  "decoyCount (2 ^ 53 - 1, 53) = 8 \<and> decoyCount (1, 1074) = 3 \<and> decoyCount (0, 53) = 3"
  by (simp add: decoyCount_eval)

lemma length_generateDecoyTokens:
  "length (generateDecoyTokens rng) = decoyCount (mathRandom rng)"
  by (simp add: generateDecoyTokens_def)

lemma nth_generateDecoyTokens:
  "j < decoyCount (mathRandom rng) \<Longrightarrow>
     generateDecoyTokens rng ! j = bytesToHex (randomBytes rng j)"
  by (simp add: generateDecoyTokens_def randomHex_def)

lemma verifyCommitment_commitToken: "verifyCommitment prim t (commitToken prim t)"
  by (simp add: verifyCommitment_def constantTimeEqual_iff)

lemma map_of_indexed:
  assumes "distinct (map f xs)" and "i < length xs"
  shows "map_of (map (\<lambda>p. (f p, p)) xs) (f (xs ! i)) = Some (xs ! i)"
proof -
  have "(f (xs ! i), xs ! i) \<in> set (map (\<lambda>p. (f p, p)) xs)"
    using assms(2) by auto
  moreover have "distinct (map fst (map (\<lambda>p. (f p, p)) xs))"
    using assms(1) by (simp add: comp_def)
  ultimately show ?thesis by (rule map_of_is_SomeI [rotated])
qed

lemma map_of_appended:
  assumes "distinct (map f xs)" and "i < length xs"
    and "f (xs ! i) \<notin> set (map fst al)"
  shows "map_of (al @ map (\<lambda>p. (f p, p)) xs) (f (xs ! i)) = Some (xs ! i)"
proof -
  have "map_of al (f (xs ! i)) = None"
    using assms(3) by (simp add: map_of_eq_None_iff)
  then show ?thesis
    using map_of_indexed [OF assms(1,2)] by (simp add: map_add_def)
qed

text \<open>The two loops of a submission handler, with fresh and distinct identifiers.\<close>

lemma two_loops:
  fixes mkReal mkDecoy :: "nat \<times> string \<Rightarrow> Preference"
  assumes idr: "\<And>it. pref_id (mkReal it) = uuid (fst it)"
    and idd: "\<And>it. pref_id (mkDecoy it) = uuid (fst it)"
    and dist: "distinct (map uuid [0..<length toks + length decoys])"
    and fresh: "set (map uuid [0..<length toks + length decoys]) \<inter> set (map fst (preferences s)) = {}"
  defines "new \<equiv> map mkReal (zip [0..<length toks] toks)
                  @ map mkDecoy (zip [length toks..<length toks + length decoys] decoys)"
  shows "insertAll (insertAll s (map mkReal (zip [0..<length toks] toks)))
           (map mkDecoy (zip [length toks..<length toks + length decoys] decoys))
         = s\<lparr>preferences := preferences s @ map (\<lambda>p. (pref_id p, p)) new\<rparr>"
    and "map pref_id new = map uuid [0..<length toks + length decoys]"
    and "length new = length toks + length decoys"
    and "\<And>i. i < length toks \<Longrightarrow> new ! i = mkReal (i, toks ! i)"
    and "\<And>j. j < length decoys \<Longrightarrow> new ! (length toks + j) = mkDecoy (length toks + j, decoys ! j)"
proof -
  have ids_of: "map pref_id (map mk zs) = map uuid (map fst zs)"
    if "\<And>it. pref_id (mk it) = uuid (fst it)" for mk :: "nat \<times> string \<Rightarrow> Preference" and zs
    by (induction zs) (simp_all add: that)
  have ids_r: "map pref_id (map mkReal (zip [0..<length toks] toks)) = map uuid [0..<length toks]"
    by (simp only: ids_of [OF idr]) simp
  have ids_d: "map pref_id (map mkDecoy (zip [length toks..<length toks + length decoys] decoys))
                 = map uuid [length toks..<length toks + length decoys]"
    by (simp only: ids_of [OF idd]) simp
  show ids: "map pref_id new = map uuid [0..<length toks + length decoys]"
  proof -
    have "[0..<length toks + length decoys]
            = [0..<length toks] @ [length toks..<length toks + length decoys]"
      by (rule upt_add_eq_append) simp
    then show ?thesis using ids_r ids_d by (simp add: new_def)
  qed
  have "insertAll s new = s\<lparr>preferences := preferences s @ map (\<lambda>p. (pref_id p, p)) new\<rparr>"
    by (rule insertAll_fresh) (use ids dist fresh in simp_all)
  then show "insertAll (insertAll s (map mkReal (zip [0..<length toks] toks)))
           (map mkDecoy (zip [length toks..<length toks + length decoys] decoys))
         = s\<lparr>preferences := preferences s @ map (\<lambda>p. (pref_id p, p)) new\<rparr>"
    by (simp add: insertAll_def new_def)
  show "length new = length toks + length decoys" by (simp add: new_def)
  show "new ! i = mkReal (i, toks ! i)" if "i < length toks" for i
    using that by (simp add: new_def nth_append)
  show "new ! (length toks + j) = mkDecoy (length toks + j, decoys ! j)" if "j < length decoys" for j
    using that by (simp add: new_def nth_append)
qed

lemma submitPreferences_accepted:
  assumes ok: "submitPreferences prim rng now s req = (Inr r, s')"
    and pool: "getPool s (sr_poolId req) = Some pool"
    and key: "pool_id pool = sr_poolId req"
  shows "validateSubmission now (snd (updatePoolStatus now s (sr_poolId req))) req pool = Inr ()"
    and "getEffectiveStatus now pool = Commit \<Longrightarrow>
           handleCommitSubmission prim rng now (snd (updatePoolStatus now s (sr_poolId req))) req pool
             = (r, s')"
    and "getEffectiveStatus now pool \<noteq> Commit \<Longrightarrow>
           handleDirectSubmission rng now (snd (updatePoolStatus now s (sr_poolId req))) req pool
             = (r, s')"
proof -
  define s1 where "s1 = snd (updatePoolStatus now s (sr_poolId req))"
  obtain p' where up: "updatePoolStatus now s (sr_poolId req) = (Inr p', s1)"
    using updatePoolStatus_found [OF pool, of now] by (metis prod.collapse s1_def)
  have all: "validateSubmission now s1 req pool = Inr ()
     \<and> (getEffectiveStatus now pool = Commit \<longrightarrow>
           handleCommitSubmission prim rng now s1 req pool = (r, s'))
     \<and> (getEffectiveStatus now pool \<noteq> Commit \<longrightarrow>
           handleDirectSubmission rng now s1 req pool = (r, s'))"
    using ok pool key up
    by (auto simp: submitPreferences_def requirePool_def Let_def
          split: sum.splits if_splits prod.splits)
  show "validateSubmission now (snd (updatePoolStatus now s (sr_poolId req))) req pool = Inr ()"
    using all unfolding s1_def by blast
  show "handleCommitSubmission prim rng now (snd (updatePoolStatus now s (sr_poolId req))) req pool
             = (r, s')" if "getEffectiveStatus now pool = Commit"
    using all that unfolding s1_def by blast
  show "handleDirectSubmission rng now (snd (updatePoolStatus now s (sr_poolId req))) req pool
             = (r, s')" if "getEffectiveStatus now pool \<noteq> Commit"
    using all that unfolding s1_def by blast
qed

text \<open>What an accepted submission leaves in the store: the old preferences, then one
  preference per real token, then one per decoy.\<close>

lemma submitPreferences_store:
  assumes ok: "submitPreferences prim rng now s req = (Inr r, s')"
    and pool: "getPool s (sr_poolId req) = Some pool"
    and key: "pool_id pool = sr_poolId req"
    and dist: "distinct (map (uuidv4 rng)
                 [0..<length (sr_matchTokens req) + decoyCount (mathRandom rng)])"
    and fresh: "set (map (uuidv4 rng)
                 [0..<length (sr_matchTokens req) + decoyCount (mathRandom rng)])
                  \<inter> set (map fst (preferences s)) = {}"
  defines "mkReal \<equiv> (if getEffectiveStatus now pool = Commit
                       then commitPreference prim rng now req pool
                       else directPreference rng now req pool)"
    and "mkDecoy \<equiv> (if getEffectiveStatus now pool = Commit
                       then commitDecoy prim rng now req pool
                       else directDecoy rng now req pool)"
    and "n \<equiv> length (sr_matchTokens req)"
    and "k \<equiv> decoyCount (mathRandom rng)"
  defines "new \<equiv> map mkReal (zip [0..<n] (sr_matchTokens req))
                  @ map mkDecoy (zip [n..<n + k] (generateDecoyTokens rng))"
  shows "preferences s' = preferences s @ map (\<lambda>p. (pref_id p, p)) new"
    and "preferenceIds r = map (uuidv4 rng) [0..<n]"
    and "map pref_id new = map (uuidv4 rng) [0..<n + k]"
    and "length new = n + k"
    and "\<And>i. i < n \<Longrightarrow> new ! i = mkReal (i, sr_matchTokens req ! i)"
    and "\<And>j. j < k \<Longrightarrow> new ! (n + j) = mkDecoy (n + j, generateDecoyTokens rng ! j)"
proof -
  define s1 where "s1 = snd (updatePoolStatus now s (sr_poolId req))"
  have prefs1: "preferences s1 = preferences s"
    by (simp add: s1_def updatePoolStatus_keeps)
  have lk: "length (generateDecoyTokens rng) = k"
    by (simp add: k_def length_generateDecoyTokens)
  have idr: "pref_id (mkReal it) = uuidv4 rng (fst it)" for it
    by (simp add: mkReal_def commitPreference_def directPreference_def)
  have idd: "pref_id (mkDecoy it) = uuidv4 rng (fst it)" for it
    by (simp add: mkDecoy_def commitDecoy_def directDecoy_def)
  have dist': "distinct (map (uuidv4 rng)
      [0..<length (sr_matchTokens req) + length (generateDecoyTokens rng)])"
    using dist by (simp add: lk k_def)
  have fresh': "set (map (uuidv4 rng)
      [0..<length (sr_matchTokens req) + length (generateDecoyTokens rng)])
        \<inter> set (map fst (preferences s1)) = {}"
    using fresh by (simp add: lk k_def prefs1)
  note tl = two_loops [of mkReal "uuidv4 rng" mkDecoy "sr_matchTokens req"
      "generateDecoyTokens rng" s1, OF idr idd dist' fresh', folded n_def, unfolded lk,
      folded new_def]
  have ids_real: "map pref_id (map mkReal (zip [0..<n] (sr_matchTokens req)))
                    = map (uuidv4 rng) [0..<n]"
  proof -
    have "map pref_id (map mkReal (zip [0..<n] (sr_matchTokens req)))
            = map (\<lambda>i. pref_id (new ! i)) [0..<n]"
      by (rule nth_equalityI) (simp_all add: n_def tl(4) [unfolded n_def])
    also have "\<dots> = map (uuidv4 rng) [0..<n]"
      by (rule nth_equalityI) (simp_all add: tl(4) idr)
    finally show ?thesis .
  qed
  have handled: "s' = s1\<lparr>preferences := preferences s1 @ map (\<lambda>p. (pref_id p, p)) new\<rparr>
               \<and> preferenceIds r = map (uuidv4 rng) [0..<n]"
  proof (cases "getEffectiveStatus now pool = Commit")
    case True
    have "handleCommitSubmission prim rng now s1 req pool = (r, s')"
      using submitPreferences_accepted(2) [OF ok pool key True] by (simp only: s1_def)
    then show ?thesis
      using tl(1) ids_real True
      by (auto simp: handleCommitSubmission_def Let_def mkReal_def mkDecoy_def n_def lk k_def)
  next
    case False
    have "handleDirectSubmission rng now s1 req pool = (r, s')"
      using submitPreferences_accepted(3) [OF ok pool key False] by (simp only: s1_def)
    then show ?thesis
      using tl(1) ids_real False
      by (auto simp: handleDirectSubmission_def Let_def mkReal_def mkDecoy_def n_def lk k_def)
  qed
  show "preferences s' = preferences s @ map (\<lambda>p. (pref_id p, p)) new"
    using handled by (simp add: prefs1)
  show "preferenceIds r = map (uuidv4 rng) [0..<n]" using handled by simp
  show "map pref_id new = map (uuidv4 rng) [0..<n + k]" by (rule tl(2))
  show "length new = n + k" by (rule tl(3))
  show "new ! i = mkReal (i, sr_matchTokens req ! i)" if "i < n" for i
    using tl(4) that by (simp add: n_def)
  show "new ! (n + j) = mkDecoy (n + j, generateDecoyTokens rng ! j)" if "j < k" for j
    using tl(5) that by simp
qed

text \<open>
  C5. For every accepted submission, on the commit path and on the direct path alike, the
  server inserts, after the real preferences, \<open>k\<close> decoy preferences under the same pool and
  nullifier, with \<open>3 \<le> k \<le> 8\<close>: the preferences stored under (pool, nullifier) are the real
  tokens plus \<open>k\<close>. The token of the \<open>j\<close>-th decoy is the hex form of the \<open>j\<close>-th 32 random bytes.
  The returned \<open>preferenceIds\<close> holds one id per real token, in order, each naming the
  preference that stores this token, and no id of a decoy. On the commit path a decoy is stored
  unrevealed with a commitment that verifies against its own token; on the direct path it is
  stored revealed without commitment. The count is a function of the double \<open>x = m / 2^e\<close>
  that \<open>Math.random()\<close> returns: it is at least \<open>3 + j\<close> when \<open>j/6 \<le> x\<close>, and at most \<open>3 + j\<close>
  when \<open>6 * m + 4 < (j + 1) * 2^e\<close>, that is when \<open>x\<close> is below \<open>(j+1)/6\<close> by more than
  \<open>(2/3) / 2^e\<close>. So each of the six counts is taken on one of six intervals of \<open>[0, 1)\<close> of
  width \<open>1/6\<close>, up to the rounding of the product at the upper end of an interval, which moves
  at most one value of the grid \<open>m / 2^53\<close> to the next count.
  The identifiers that \<open>uuidv4()\<close> returns during the call are distinct and not yet in the store.
\<close>

theorem submitPreferences_decoys:
  assumes ok: "submitPreferences prim rng now s req = (Inr r, s')"
    and pool: "getPool s (sr_poolId req) = Some pool"
    and key: "pool_id pool = sr_poolId req"
    and ne: "sr_poolId req \<noteq> []"
    and rnd: "isUnitDouble (mathRandom rng)"
    and bytes: "\<And>i. length (randomBytes rng i) = 32"
    and dist: "distinct (map (uuidv4 rng)
                 [0..<length (sr_matchTokens req) + decoyCount (mathRandom rng)])"
    and fresh: "set (map (uuidv4 rng)
                 [0..<length (sr_matchTokens req) + decoyCount (mathRandom rng)])
                  \<inter> set (map fst (preferences s)) = {}"
  shows "let n = length (sr_matchTokens req); k = decoyCount (mathRandom rng) in
     3 \<le> k \<and> k \<le> 8
   \<and> preferenceIds r = map (uuidv4 rng) [0..<n]
   \<and> map (\<lambda>i. map_option matchToken (map_of (preferences s') i)) (preferenceIds r)
       = map Some (sr_matchTokens req)
   \<and> length (getPreferencesByNullifier s' (sr_poolId req) (sr_nullifier req)) = n + k
   \<and> (\<forall>j<k. \<exists>d. map_of (preferences s') (uuidv4 rng (n + j)) = Some d
          \<and> uuidv4 rng (n + j) \<notin> set (preferenceIds r)
          \<and> hexToBytes (matchToken d) = Some (randomBytes rng j)
          \<and> length (randomBytes rng j) = 32
          \<and> nullifier d = sr_nullifier req \<and> pref_poolId d = sr_poolId req
          \<and> encryptedReveal d = None
          \<and> (if getEffectiveStatus now pool = Commit
              then \<not> revealed d
                   \<and> (\<exists>c. commitHash d = Some c \<and> verifyCommitment prim (matchToken d) c)
              else revealed d \<and> commitHash d = None))
   \<and> (\<forall>x j. isUnitDouble x \<longrightarrow>
          (j * 2 ^ snd x \<le> 6 * fst x \<longrightarrow> 3 + j \<le> decoyCount x)
        \<and> (6 * fst x + 4 < (j + 1) * 2 ^ snd x \<longrightarrow> decoyCount x \<le> 3 + j))"
proof -
  define n where "n = length (sr_matchTokens req)"
  define k where "k = decoyCount (mathRandom rng)"
  define mkReal where "mkReal = (if getEffectiveStatus now pool = Commit
                       then commitPreference prim rng now req pool
                       else directPreference rng now req pool)"
  define mkDecoy where "mkDecoy = (if getEffectiveStatus now pool = Commit
                       then commitDecoy prim rng now req pool
                       else directDecoy rng now req pool)"
  define new where "new = map mkReal (zip [0..<n] (sr_matchTokens req))
                  @ map mkDecoy (zip [n..<n + k] (generateDecoyTokens rng))"
  note st = submitPreferences_store [OF ok pool key dist fresh,
      folded n_def k_def mkReal_def mkDecoy_def, folded new_def]
  have prefs: "preferences s' = preferences s @ map (\<lambda>p. (pref_id p, p)) new" by (rule st(1))
  have ids: "preferenceIds r = map (uuidv4 rng) [0..<n]" by (rule st(2))
  have new_ids: "map pref_id new = map (uuidv4 rng) [0..<n + k]" by (rule st(3))
  have len: "length new = n + k" by (rule st(4))
  have id_at: "pref_id (new ! i) = uuidv4 rng i" if "i < n + k" for i
  proof -
    have "map pref_id new ! i = map (uuidv4 rng) [0..<n + k] ! i" by (simp only: new_ids)
    then show ?thesis using that len by simp
  qed
  have dist_new: "distinct (map pref_id new)"
    using dist by (simp add: new_ids n_def k_def)
  have lookup: "map_of (preferences s') (uuidv4 rng i) = Some (new ! i)" if "i < n + k" for i
  proof -
    have "uuidv4 rng i \<in> set (map (uuidv4 rng) [0..<n + k])" using that by simp
    then have "uuidv4 rng i \<notin> set (map fst (preferences s))"
      using fresh by (auto simp: n_def k_def)
    then have "pref_id (new ! i) \<notin> set (map fst (preferences s))"
      by (simp add: id_at [OF that])
    from map_of_appended [OF dist_new _ this] that len
    show ?thesis by (simp add: prefs id_at)
  qed
  have krange: "3 \<le> k \<and> k \<le> 8"
    using decoyCount_range [OF rnd] by (simp add: k_def)
  have valid: "validateSubmission now (snd (updatePoolStatus now s (sr_poolId req))) req pool = Inr ()"
    by (rule submitPreferences_accepted(1) [OF ok pool key])
  have nn: "sr_nullifier req \<noteq> []"
    using valid by (auto simp: validateSubmission_def split: if_splits)
  have nodup: "\<not> hasSubmitted (snd (updatePoolStatus now s (sr_poolId req)))
                   (sr_poolId req) (sr_nullifier req)"
    using valid key by (auto simp: validateSubmission_def split: if_splits)
  have old_none: "filter (\<lambda>p. pref_poolId p = sr_poolId req \<and> nullifier p = sr_nullifier req)
                    (map snd (preferences s)) = []"
    using nodup by (auto simp: hasSubmitted_iff [OF ne nn] updatePoolStatus_keeps filter_empty_conv)
  have real_fields: "matchToken (mkReal it) = snd it \<and> nullifier (mkReal it) = sr_nullifier req
      \<and> pref_poolId (mkReal it) = sr_poolId req" for it
    by (simp add: mkReal_def commitPreference_def directPreference_def key)
  have decoy_fields: "matchToken (mkDecoy it) = snd it \<and> nullifier (mkDecoy it) = sr_nullifier req
      \<and> pref_poolId (mkDecoy it) = sr_poolId req \<and> encryptedReveal (mkDecoy it) = None
      \<and> (if getEffectiveStatus now pool = Commit
          then \<not> revealed (mkDecoy it)
               \<and> (\<exists>c. commitHash (mkDecoy it) = Some c \<and> verifyCommitment prim (snd it) c)
          else revealed (mkDecoy it) \<and> commitHash (mkDecoy it) = None)" for it
    by (simp add: mkDecoy_def commitDecoy_def directDecoy_def key verifyCommitment_commitToken)
  have all_new: "filter (\<lambda>p. pref_poolId p = sr_poolId req \<and> nullifier p = sr_nullifier req) new = new"
    by (simp add: new_def real_fields decoy_fields)
  have count: "length (getPreferencesByNullifier s' (sr_poolId req) (sr_nullifier req)) = n + k"
    using old_none all_new len
    by (simp add: getPreferencesByNullifier_eq [OF ne nn] prefs comp_def)
  have tokens: "map (\<lambda>i. map_option matchToken (map_of (preferences s') i)) (preferenceIds r)
                  = map Some (sr_matchTokens req)"
  proof (rule nth_equalityI)
    show "length (map (\<lambda>i. map_option matchToken (map_of (preferences s') i)) (preferenceIds r))
            = length (map Some (sr_matchTokens req))"
      by (simp add: ids n_def)
    fix i assume "i < length (map (\<lambda>i. map_option matchToken (map_of (preferences s') i))
                                (preferenceIds r))"
    then have i: "i < n" by (simp add: ids)
    then have "map_of (preferences s') (uuidv4 rng i) = Some (mkReal (i, sr_matchTokens req ! i))"
      using lookup [of i] st(5) [OF i] by simp
    then show "map (\<lambda>i. map_option matchToken (map_of (preferences s') i)) (preferenceIds r) ! i
                 = map Some (sr_matchTokens req) ! i"
      using i by (simp add: ids real_fields n_def)
  qed
  have decoys: "\<exists>d. map_of (preferences s') (uuidv4 rng (n + j)) = Some d
          \<and> uuidv4 rng (n + j) \<notin> set (preferenceIds r)
          \<and> hexToBytes (matchToken d) = Some (randomBytes rng j)
          \<and> length (randomBytes rng j) = 32
          \<and> nullifier d = sr_nullifier req \<and> pref_poolId d = sr_poolId req
          \<and> encryptedReveal d = None
          \<and> (if getEffectiveStatus now pool = Commit
              then \<not> revealed d
                   \<and> (\<exists>c. commitHash d = Some c \<and> verifyCommitment prim (matchToken d) c)
              else revealed d \<and> commitHash d = None)" if j: "j < k" for j
  proof -
    define d where "d = mkDecoy (n + j, generateDecoyTokens rng ! j)"
    have l: "map_of (preferences s') (uuidv4 rng (n + j)) = Some d"
      using lookup [of "n + j"] st(6) [OF j] j by (simp add: d_def)
    have tok: "matchToken d = bytesToHex (randomBytes rng j)"
      using j by (simp add: d_def decoy_fields nth_generateDecoyTokens k_def)
    have notin: "uuidv4 rng (n + j) \<notin> set (preferenceIds r)"
    proof
      assume "uuidv4 rng (n + j) \<in> set (preferenceIds r)"
      then obtain i where i: "i < n" "uuidv4 rng i = uuidv4 rng (n + j)"
        by (auto simp: ids)
      have inj: "inj_on (uuidv4 rng) (set [0..<n + k])"
        using dist unfolding n_def k_def distinct_map by blast
      have "i \<in> set [0..<n + k]" "n + j \<in> set [0..<n + k]"
        using i(1) j by simp_all
      from inj_onD [OF inj i(2) this] show False using i(1) by simp
    qed
    have "(if getEffectiveStatus now pool = Commit
              then \<not> revealed d
                   \<and> (\<exists>c. commitHash d = Some c \<and> verifyCommitment prim (matchToken d) c)
              else revealed d \<and> commitHash d = None)"
      using decoy_fields [of "(n + j, generateDecoyTokens rng ! j)"]
      by (simp add: d_def split: if_splits)
    then show ?thesis
      using l tok notin bytes decoy_fields [of "(n + j, generateDecoyTokens rng ! j)"]
      by (auto simp: hexToBytes_bytesToHex d_def)
  qed
  have uniform: "\<forall>x j. isUnitDouble x \<longrightarrow>
        (j * 2 ^ snd x \<le> 6 * fst x \<longrightarrow> 3 + j \<le> decoyCount x)
      \<and> (6 * fst x + 4 < (j + 1) * 2 ^ snd x \<longrightarrow> decoyCount x \<le> 3 + j)"
    using decoyCount_lower decoyCount_upper by blast
  show ?thesis
    unfolding Let_def n_def [symmetric] k_def [symmetric]
    using krange ids tokens count decoys uniform by blast
qed

lemma sample_decoyCount: "decoyCount (mathRandom sample_rng) = 6"
  by (simp add: sample_rng_def decoyCount_eval)

lemma sample_submit_accepted:
  "\<not> isl (fst (submitPreferences toy_prim sample_rng 50 store_commit sample_submit))"
proof -
  have pool: "requirePool store_commit (sr_poolId sample_submit) = Inr pool_cr"
    by code_simp
  have up: "\<not> isl (fst (updatePoolStatus 50 store_commit (pool_id pool_cr)))"
    by code_simp
  have valid: "validateSubmission 50 (snd (updatePoolStatus 50 store_commit (pool_id pool_cr)))
                 sample_submit pool_cr = Inr ()"
    by code_simp
  have st: "getEffectiveStatus 50 pool_cr = Commit"
    by code_simp
  obtain p s1 where "updatePoolStatus 50 store_commit (pool_id pool_cr) = (Inr p, s1)"
    using up by (metis isl_def prod.collapse sum.collapse(2))
  then show ?thesis
    using valid by (simp add: submitPreferences_def pool st case_prod_beta)
qed

theorem submitPreferences_decoys_witness:
  "length (getPreferencesByNullifier
             (snd (submitPreferences toy_prim sample_rng 50 store_commit sample_submit))
             ''pool-1'' ''n-alice'') = 7
   \<and> preferenceIds (projr (fst (submitPreferences toy_prim sample_rng 50 store_commit sample_submit)))
       = [''id-'']"
proof -
  define X where "X = submitPreferences toy_prim sample_rng 50 store_commit sample_submit"
  have ok: "submitPreferences toy_prim sample_rng 50 store_commit sample_submit
              = (Inr (projr (fst X)), snd X)"
    using sample_submit_accepted unfolding X_def [symmetric]
    by (metis prod.collapse sum.collapse(2))
  have pool: "getPool store_commit (sr_poolId sample_submit) = Some pool_cr"
    by (simp add: getPool_def store_commit_def sample_submit_def)
  have key: "pool_id pool_cr = sr_poolId sample_submit"
    by (simp add: pool_cr_def sample_submit_def)
  have ne: "sr_poolId sample_submit \<noteq> []" by (simp add: sample_submit_def)
  have rnd: "isUnitDouble (mathRandom sample_rng)"
    by (simp add: sample_rng_def isUnitDouble_def)
  have bytes: "\<And>i. length (randomBytes sample_rng i) = 32"
    by (simp add: sample_rng_def)
  have dist: "distinct (map (uuidv4 sample_rng)
      [0..<length (sr_matchTokens sample_submit) + decoyCount (mathRandom sample_rng)])"
    unfolding sample_decoyCount by (simp add: sample_submit_def sample_rng_def upt_rec)
  have fresh: "set (map (uuidv4 sample_rng)
      [0..<length (sr_matchTokens sample_submit) + decoyCount (mathRandom sample_rng)])
        \<inter> set (map fst (preferences store_commit)) = {}"
    by (simp add: store_commit_def)
  from submitPreferences_decoys [OF ok pool key ne rnd bytes dist fresh]
  show ?thesis
    unfolding Let_def sample_decoyCount X_def
    by (simp add: sample_submit_def sample_rng_def)
qed

subsection \<open>Reveal\<close>

lemma revealStep_branch:
  "revealStep prim p st =
     st\<lparr> tokenSet := consume (branchTaken prim p (tokenSet st)) (tokenSet st),
         rs_store := applyOutcome (p, branchTaken prim p (tokenSet st)) (rs_store st),
         rs_revealedCount := rs_revealedCount st
            + (if branchTaken prim p (tokenSet st) = Unmatched then 0 else 1),
         unmatched := unmatched st
            @ (if branchTaken prim p (tokenSet st) = Unmatched then [p] else []) \<rparr>"
  by (cases "find (commitMatches prim p) (tokenSet st)")
     (simp_all add: revealStep_def branchTaken_def truthy_def Let_def)

lemma fold_revealStep:
  "fold (revealStep prim) ps st =
     st\<lparr> tokenSet := fold consume (branches prim (tokenSet st) ps) (tokenSet st),
         rs_store := fold applyOutcome (zip ps (branches prim (tokenSet st) ps)) (rs_store st),
         rs_revealedCount := rs_revealedCount st
            + length (filter (\<lambda>b. b \<noteq> Unmatched) (branches prim (tokenSet st) ps)),
         unmatched := unmatched st
            @ map fst (filter (\<lambda>(p, b). b = Unmatched) (zip ps (branches prim (tokenSet st) ps))) \<rparr>"
proof (induction ps arbitrary: st)
  case Nil
  show ?case by simp
next
  case (Cons p ps)
  define st1 where "st1 = revealStep prim p st"
  have ts1: "tokenSet st1 = consume (branchTaken prim p (tokenSet st)) (tokenSet st)"
    and store1: "rs_store st1 = applyOutcome (p, branchTaken prim p (tokenSet st)) (rs_store st)"
    and cnt1: "rs_revealedCount st1 = rs_revealedCount st
            + (if branchTaken prim p (tokenSet st) = Unmatched then 0 else 1)"
    and un1: "unmatched st1 = unmatched st
            @ (if branchTaken prim p (tokenSet st) = Unmatched then [p] else [])"
    and more1: "RevealState.more st1 = RevealState.more st"
    unfolding st1_def by (simp_all add: revealStep_branch)
  have "fold (revealStep prim) (p # ps) st = fold (revealStep prim) ps st1"
    by (simp add: st1_def)
  also note Cons.IH [of st1]
  finally show ?case
    by (simp add: ts1 store1 cnt1 un1 more1 RevealState.equality)
qed

lemma map_of_updatePreferenceRevealed:
  "map_of (preferences (updatePreferenceRevealed s i t)) =
     (case map_of (preferences s) i of
        None \<Rightarrow> map_of (preferences s)
      | Some p \<Rightarrow> (map_of (preferences s))(i \<mapsto> p\<lparr>revealed := True, matchToken := t\<rparr>))"
  by (simp add: updatePreferenceRevealed_def update_conv' split: option.splits)

lemma map_of_applyOutcome_other:
  "i \<noteq> pref_id p \<Longrightarrow>
     map_of (preferences (applyOutcome (p, b) s)) i = map_of (preferences s) i"
  by (cases b) (simp_all add: map_of_updatePreferenceRevealed split: option.splits)

lemma fold_applyOutcome_other:
  "i \<notin> set (map (\<lambda>pb. pref_id (fst pb)) pbs) \<Longrightarrow>
     map_of (preferences (fold applyOutcome pbs s)) i = map_of (preferences s) i"
proof (induction pbs arbitrary: s)
  case Nil
  show ?case by simp
next
  case (Cons pb pbs)
  obtain p b where pb: "pb = (p, b)" by (cases pb)
  have "map_of (preferences (fold applyOutcome pbs (applyOutcome pb s))) i
          = map_of (preferences (applyOutcome pb s)) i"
    using Cons.prems by (intro Cons.IH) simp
  then show ?case using Cons.prems by (simp add: pb map_of_applyOutcome_other)
qed

lemma fold_applyOutcome_entry:
  assumes "distinct (map (\<lambda>pb. pref_id (fst pb)) pbs)"
    and "(p, b) \<in> set pbs"
    and "map_of (preferences s) (pref_id p) = Some p"
  shows "map_of (preferences (fold applyOutcome pbs s)) (pref_id p) = Some (revealedAs p b)"
  using assms
proof (induction pbs arbitrary: s)
  case Nil
  then show ?case by simp
next
  case (Cons pb pbs)
  obtain q c where pb: "pb = (q, c)" by (cases pb)
  show ?case
  proof (cases "(p, b) = pb")
    case True
    have notin: "pref_id p \<notin> set (map (\<lambda>pb. pref_id (fst pb)) pbs)"
      using Cons.prems(1) True [symmetric] by simp
    have "map_of (preferences (fold applyOutcome pbs (applyOutcome pb s))) (pref_id p)
            = map_of (preferences (applyOutcome pb s)) (pref_id p)"
      by (rule fold_applyOutcome_other [OF notin])
    also have "\<dots> = Some (revealedAs p b)"
      using True [symmetric] Cons.prems(3)
      by (cases b) (simp_all add: map_of_updatePreferenceRevealed revealedAs_def)
    finally show ?thesis by simp
  next
    case False
    then have mem: "(p, b) \<in> set pbs" using Cons.prems(2) by auto
    then have inimg: "pref_id p \<in> (\<lambda>pb. pref_id (fst pb)) ` set pbs" by force
    have "pref_id q \<notin> (\<lambda>pb. pref_id (fst pb)) ` set pbs"
      using Cons.prems(1) pb by simp
    then have neq: "pref_id q \<noteq> pref_id p" using inimg by metis
    have keep: "map_of (preferences (applyOutcome pb s)) (pref_id p) = Some p"
      using Cons.prems(3) neq
      by (cases c) (simp_all add: pb map_of_updatePreferenceRevealed split: option.splits)
    have "map_of (preferences (fold applyOutcome pbs (applyOutcome pb s))) (pref_id p)
            = Some (revealedAs p b)"
      using Cons.prems(1) mem keep by (intro Cons.IH) simp_all
    then show ?thesis by simp
  qed
qed

lemma fold_applyOutcome_frame:
  "pools (fold applyOutcome pbs s) = pools s \<and> matchResults (fold applyOutcome pbs s) = matchResults s"
proof (induction pbs arbitrary: s)
  case Nil
  show ?case by simp
next
  case (Cons pb pbs)
  obtain q c where pb: "pb = (q, c)" by (cases pb)
  have "pools (applyOutcome pb s) = pools s \<and> matchResults (applyOutcome pb s) = matchResults s"
    by (cases c) (simp_all add: pb updatePreferenceRevealed_def split: option.splits)
  then show ?case using Cons.IH [of "applyOutcome pb s"] by simp
qed

lemma set_consume: "set (consume b cs) \<subseteq> set cs"
  by (cases b) auto


lemma branchTaken_user:
  "branchTaken prim p cs = ByUserToken t \<Longrightarrow> t \<in> set cs \<and> t \<noteq> [] \<and> commitMatches prim p t"
  by (auto simp: branchTaken_def find_Some_iff split: option.splits if_splits)




lemma length_branches: "length (branches prim cs ps) = length ps"
  by (induction ps arbitrary: cs) simp_all


lemma unmatched_token_left:
  assumes "t \<in> set cs" and "\<And>p. p \<in> set ps \<Longrightarrow> \<not> commitMatches prim p t"
  shows "t \<in> set (fold consume (branches prim cs ps) cs)"
  using assms
proof (induction ps arbitrary: cs)
  case Nil
  then show ?case by simp
next
  case (Cons q ps)
  have "branchTaken prim q cs \<noteq> ByUserToken t"
    using branchTaken_user [of prim q cs t] Cons.prems(2) [of q] by auto
  then have "t \<in> set (consume (branchTaken prim q cs) cs)"
    using Cons.prems(1) by (cases "branchTaken prim q cs") auto
  from Cons.IH [OF this] Cons.prems(2) show ?case by simp
qed

lemma empty_token_left: "[] \<in> set cs \<Longrightarrow> [] \<in> set (fold consume (branches prim cs ps) cs)"
proof (induction ps arbitrary: cs)
  case Nil
  then show ?case by simp
next
  case (Cons q ps)
  have "branchTaken prim q cs \<noteq> ByUserToken []"
    using branchTaken_user [of prim q cs "[]"] by auto
  then have "[] \<in> set (consume (branchTaken prim q cs) cs)"
    using Cons.prems by (cases "branchTaken prim q cs") auto
  from Cons.IH [OF this] show ?case by simp
qed


lemma userTokens_subset: "set (userTokens (branches prim cs ps)) \<subseteq> set cs"
proof (induction ps arbitrary: cs)
  case Nil
  show ?case by (simp add: userTokens_def)
next
  case (Cons q ps)
  have "set (userTokens (branches prim (consume (branchTaken prim q cs) cs) ps))
          \<subseteq> set (consume (branchTaken prim q cs) cs)"
    by (rule Cons.IH)
  then have rest: "set (userTokens (branches prim (consume (branchTaken prim q cs) cs) ps)) \<subseteq> set cs"
    using set_consume [of "branchTaken prim q cs" cs] by blast
  show ?case
  proof (cases "branchTaken prim q cs")
    case (ByUserToken t)
    then have "t \<in> set cs" using branchTaken_user by blast
    then show ?thesis using rest ByUserToken by (simp add: userTokens_def)
  next
    case ByStoredToken
    then show ?thesis using rest by (simp add: userTokens_def)
  next
    case Unmatched
    then show ?thesis using rest by (simp add: userTokens_def)
  qed
qed

lemma userTokens_distinct: "distinct (userTokens (branches prim cs ps))"
proof (induction ps arbitrary: cs)
  case Nil
  show ?case by (simp add: userTokens_def)
next
  case (Cons q ps)
  have IH: "distinct (userTokens (branches prim (consume (branchTaken prim q cs) cs) ps))"
    by (rule Cons.IH)
  show ?case
  proof (cases "branchTaken prim q cs")
    case (ByUserToken t)
    have "set (userTokens (branches prim (removeAll t cs) ps)) \<subseteq> set (removeAll t cs)"
      by (rule userTokens_subset)
    then have "t \<notin> set (userTokens (branches prim (removeAll t cs) ps))" by auto
    then show ?thesis using IH ByUserToken by (simp add: userTokens_def)
  next
    case ByStoredToken
    then show ?thesis using IH by (simp add: userTokens_def)
  next
    case Unmatched
    then show ?thesis using IH by (simp add: userTokens_def)
  qed
qed

lemma branchTaken_spec:
  assumes "[] \<notin> set cs"
  shows "branchTaken prim p cs = spec_choice prim p cs"
proof (cases "find (commitMatches prim p) cs")
  case None
  then show ?thesis by (simp add: branchTaken_def spec_choice_def)
next
  case (Some t)
  then have "t \<in> set cs" by (auto simp: find_Some_iff)
  then have "t \<noteq> []" using assms by auto
  then show ?thesis using Some by (simp add: branchTaken_def spec_choice_def)
qed

lemma branches_spec: "[] \<notin> set cs \<Longrightarrow> branches prim cs ps = spec_reveal prim cs ps"
proof (induction ps arbitrary: cs)
  case Nil
  show ?case by simp
next
  case (Cons q ps)
  have "[] \<notin> set (consume (spec_choice prim q cs) cs)"
    using Cons.prems set_consume [of "spec_choice prim q cs" cs] by auto
  from Cons.IH [OF this] show ?case
    by (simp add: branchTaken_spec [OF Cons.prems])
qed

lemma jsSet_props: "set (jsSet xs) = set xs" "distinct (jsSet xs)"
  by (simp_all add: jsSet_def)

lemma handleReveal_loop:
  assumes "filter (\<lambda>p. \<not> revealed p) (getPreferencesByNullifier s (pool_id pool) (rr_nullifier req)) \<noteq> []"
  shows "handleReveal prim s req pool =
     (let unrevealed = filter (\<lambda>p. \<not> revealed p)
                         (getPreferencesByNullifier s (pool_id pool) (rr_nullifier req));
          bs = branches prim (jsSet (rr_matchTokens req)) unrevealed
      in (if fold consume bs (jsSet (rr_matchTokens req)) \<noteq> []
          then Inl (RendezvousError COMMITMENT_MISMATCH)
          else Inr \<lparr> rv_success = True,
                     revealedCount = length (filter (\<lambda>b. b \<noteq> Unmatched) bs) \<rparr>,
          fold applyOutcome (zip unrevealed bs) s))"
proof -
  have "getPreferencesByNullifier s (pool_id pool) (rr_nullifier req) \<noteq> []"
    using assms by auto
  then show ?thesis
    using assms by (simp add: handleReveal_def Let_def fold_revealStep)
qed

lemma revealPreferences_in_reveal:
  assumes pool: "getPool s (rr_poolId req) = Some pool"
    and key: "pool_id pool = rr_poolId req"
    and st: "getEffectiveStatus now pool = Reveal"
  shows "revealPreferences prim now s req
           = handleReveal prim (snd (updatePoolStatus now s (rr_poolId req))) req pool"
proof -
  define s1 where "s1 = snd (updatePoolStatus now s (rr_poolId req))"
  obtain p' where up: "updatePoolStatus now s (rr_poolId req) = (Inr p', s1)"
    using updatePoolStatus_found [OF pool, of now] by (metis prod.collapse s1_def)
  have "revealPreferences prim now s req = handleReveal prim s1 req pool"
    using pool key st up by (simp add: revealPreferences_def requirePool_def)
  then show ?thesis by (simp only: s1_def)
qed

text \<open>The store operations keep the preferences keyed by id.\<close>

lemma set_update_within:
  "set (AList.update k v al) \<subseteq> insert (k, v) (set al)"
  by (induction al) auto

lemma keyedById_insertPreference:
  assumes "keyedById s"
  shows "keyedById (insertPreference s p)"
proof -
  have "set (AList.update (pref_id p) p (preferences s))
          \<subseteq> insert (pref_id p, p) (set (preferences s))"
    by (rule set_update_within)
  then have "list_all (\<lambda>kp. pref_id (snd kp) = fst kp) (AList.update (pref_id p) p (preferences s))"
    using assms by (auto simp: keyedById_def list_all_iff)
  then show ?thesis
    using assms by (simp add: keyedById_def insertPreference_def distinct_update)
qed

lemma keyedById_updatePreferenceRevealed:
  assumes "keyedById s"
  shows "keyedById (updatePreferenceRevealed s i t)"
proof (cases "map_of (preferences s) i")
  case None
  then show ?thesis using assms by (simp add: updatePreferenceRevealed_def)
next
  case (Some p)
  then have "(i, p) \<in> set (preferences s)" by (rule map_of_SomeD)
  then have id: "pref_id p = i"
    using assms by (auto simp: keyedById_def list_all_iff)
  have "set (AList.update i (p\<lparr>revealed := True, matchToken := t\<rparr>) (preferences s))
          \<subseteq> insert (i, p\<lparr>revealed := True, matchToken := t\<rparr>) (set (preferences s))"
    by (rule set_update_within)
  then have "list_all (\<lambda>kp. pref_id (snd kp) = fst kp)
               (AList.update i (p\<lparr>revealed := True, matchToken := t\<rparr>) (preferences s))"
    using assms id by (auto simp: keyedById_def list_all_iff)
  then show ?thesis
    using assms Some by (simp add: keyedById_def updatePreferenceRevealed_def distinct_update)
qed

lemma keyed_ids: "list_all (\<lambda>kp. pref_id (snd kp) = fst kp) al \<Longrightarrow> map pref_id (map snd al) = map fst al"
  by (induction al) simp_all

lemma unrevealed_props:
  assumes wf: "keyedById s" and ne: "poolId \<noteq> []" and nn: "nf \<noteq> []"
  defines "U \<equiv> filter (\<lambda>p. \<not> revealed p) (getPreferencesByNullifier s poolId nf)"
  shows "set U = {p \<in> set (map snd (preferences s)).
                    pref_poolId p = poolId \<and> nullifier p = nf \<and> \<not> revealed p}"
    and "distinct (map pref_id U)"
    and "\<And>p. p \<in> set U \<Longrightarrow> map_of (preferences s) (pref_id p) = Some p"
proof -
  have U_eq: "U = filter (\<lambda>p. \<not> revealed p) (sort_key submittedAt
      (filter (\<lambda>p. pref_poolId p = poolId \<and> nullifier p = nf) (map snd (preferences s))))"
    by (simp add: U_def getPreferencesByNullifier_eq [OF ne nn])
  show setU: "set U = {p \<in> set (map snd (preferences s)).
                    pref_poolId p = poolId \<and> nullifier p = nf \<and> \<not> revealed p}"
    by (auto simp: U_eq)
  have ids: "map pref_id (map snd (preferences s)) = map fst (preferences s)"
    by (rule keyed_ids) (use wf in \<open>simp add: keyedById_def\<close>)
  have dall: "distinct (map pref_id (map snd (preferences s)))"
    using wf by (simp only: ids) (simp add: keyedById_def)
  then have d1: "distinct (map snd (preferences s))"
    and inj: "inj_on pref_id (set (map snd (preferences s)))"
    by (simp_all only: distinct_map)
  have dU: "distinct U" using d1 by (simp add: U_eq)
  have sub: "set U \<subseteq> set (map snd (preferences s))" using setU by auto
  show "distinct (map pref_id U)"
    unfolding distinct_map using dU inj_on_subset [OF inj sub] by simp
  show "map_of (preferences s) (pref_id p) = Some p" if "p \<in> set U" for p
  proof -
    from that sub obtain k where kp: "(k, p) \<in> set (preferences s)" by auto
    then have "pref_id p = k"
      using wf by (auto simp: keyedById_def list_all_iff)
    then show ?thesis using kp wf by (simp add: keyedById_def)
  qed
qed







text \<open>
  C6, as stated, fails: with every preference of the nullifier already revealed, a reveal that
  supplies a token matching no commitment succeeds with \<open>revealedCount = 0\<close> instead of
  failing with \<open>COMMITMENT_MISMATCH\<close>.
\<close>

theorem revealPreferences_junk_after_reveal:
  "fst (revealPreferences toy_prim 150 store_all_revealed reveal_only_junk)
     = Inr \<lparr> rv_success = True, revealedCount = 0 \<rparr>
   \<and> \<not> commitMatches toy_prim
         (sample_pref ''r1'' ''n-alice'' ''T1'' (Some (commitToken toy_prim ''T1'')) True) ''junk''
   \<and> getEffectiveStatus 150 pool_cr = Reveal"
  by code_simp

lemma applyOutcome_preferences_only:
  "preferences s = preferences s2 \<Longrightarrow>
     preferences (fold applyOutcome pbs s) = preferences (fold applyOutcome pbs s2)"
proof (induction pbs arbitrary: s s2)
  case Nil
  then show ?case by simp
next
  case (Cons pb pbs)
  obtain q c where pb: "pb = (q, c)" by (cases pb)
  have "preferences (applyOutcome pb s) = preferences (applyOutcome pb s2)"
    using Cons.prems by (cases c) (simp_all add: pb updatePreferenceRevealed_def split: option.splits)
  from Cons.IH [OF this] show ?case by simp
qed

lemma handleReveal_none:
  "getPreferencesByNullifier s (pool_id pool) (rr_nullifier req) = [] \<Longrightarrow>
     handleReveal prim s req pool = (Inl (RendezvousError COMMITMENT_NOT_FOUND), s)"
  by (simp add: handleReveal_def)

lemma handleReveal_all_revealed:
  "getPreferencesByNullifier s (pool_id pool) (rr_nullifier req) \<noteq> [] \<Longrightarrow>
   filter (\<lambda>p. \<not> revealed p) (getPreferencesByNullifier s (pool_id pool) (rr_nullifier req)) = [] \<Longrightarrow>
     handleReveal prim s req pool = (Inr \<lparr> rv_success = True, revealedCount = 0 \<rparr>, s)"
  by (simp add: handleReveal_def Let_def)

lemma getPreferencesByNullifier_cong:
  "preferences s = preferences s2 \<Longrightarrow>
     getPreferencesByNullifier s poolId nf = getPreferencesByNullifier s2 poolId nf"
  by (simp add: getPreferencesByNullifier_def getPreferences_def)

text \<open>
  C6, amended. With the pool in effective status reveal and no empty string among the supplied
  tokens: when no preference is stored under (pool, nullifier) the call fails with
  \<open>COMMITMENT_NOT_FOUND\<close>; when all of them are already revealed it succeeds with
  \<open>revealedCount = 0\<close>, whatever tokens are supplied; and when at least one is unrevealed, the
  loop does what \<open>spec_reveal\<close> says, preference by preference in the order of submission: a
  supplied token that hashes to the commitment is written with \<open>revealed = true\<close> and consumed, so
  that no token is used for two preferences; otherwise a stored token that hashes to the
  commitment is revealed as it is; the call then fails with \<open>COMMITMENT_MISMATCH\<close> exactly when
  a supplied token is left over, in particular when a supplied token matches no commitment of
  an unrevealed preference, and succeeds with the number of revealed preferences otherwise.
\<close>

theorem revealPreferences_refines_spec:
  assumes pool: "getPool s (rr_poolId req) = Some pool"
    and key: "pool_id pool = rr_poolId req"
    and ne: "rr_poolId req \<noteq> []"
    and nn: "rr_nullifier req \<noteq> []"
    and st: "getEffectiveStatus now pool = Reveal"
    and noempty: "[] \<notin> set (rr_matchTokens req)"
  shows "let committed = getPreferencesByNullifier s (rr_poolId req) (rr_nullifier req);
             unrevealed = filter (\<lambda>p. \<not> revealed p) committed;
             candidates = jsSet (rr_matchTokens req);
             outcomes = spec_reveal prim candidates unrevealed;
             leftover = fold consume outcomes candidates;
             result = revealPreferences prim now s req
         in (committed = [] \<longrightarrow>
               fst result = Inl (RendezvousError COMMITMENT_NOT_FOUND)
               \<and> preferences (snd result) = preferences s)
          \<and> (committed \<noteq> [] \<and> unrevealed = [] \<longrightarrow>
               fst result = Inr \<lparr> rv_success = True, revealedCount = 0 \<rparr>
               \<and> preferences (snd result) = preferences s)
          \<and> (unrevealed \<noteq> [] \<longrightarrow>
               fst result =
                 (if leftover = []
                  then Inr \<lparr> rv_success = True,
                             revealedCount = length (filter (\<lambda>b. b \<noteq> Unmatched) outcomes) \<rparr>
                  else Inl (RendezvousError COMMITMENT_MISMATCH))
               \<and> preferences (snd result)
                   = preferences (fold applyOutcome (zip unrevealed outcomes) s)
               \<and> distinct (userTokens outcomes)
               \<and> (\<forall>t \<in> set (rr_matchTokens req).
                     (\<forall>p \<in> set unrevealed. \<not> commitMatches prim p t) \<longrightarrow>
                       fst result = Inl (RendezvousError COMMITMENT_MISMATCH))
               \<and> (keyedById s \<longrightarrow>
                     (\<forall>pb \<in> set (zip unrevealed outcomes).
                        map_of (preferences s) (pref_id (fst pb)) = Some (fst pb)
                        \<and> map_of (preferences (snd result)) (pref_id (fst pb))
                            = Some (revealedAs (fst pb) (snd pb)))))"
proof -
  define s1 where "s1 = snd (updatePoolStatus now s (rr_poolId req))"
  have prefs1: "preferences s1 = preferences s"
    by (simp add: s1_def updatePoolStatus_keeps)
  define committed where "committed = getPreferencesByNullifier s (rr_poolId req) (rr_nullifier req)"
  define U where "U = filter (\<lambda>p. \<not> revealed p) committed"
  define cs where "cs = jsSet (rr_matchTokens req)"
  define bs where "bs = spec_reveal prim cs U"
  define left where "left = fold consume bs cs"
  define result where "result = revealPreferences prim now s req"
  have com1: "getPreferencesByNullifier s1 (pool_id pool) (rr_nullifier req) = committed"
    using getPreferencesByNullifier_cong [OF prefs1] by (simp add: committed_def key)
  have res: "result = handleReveal prim s1 req pool"
    using revealPreferences_in_reveal [OF pool key st] by (simp add: result_def s1_def)
  have cs_noempty: "[] \<notin> set cs" using noempty by (simp add: cs_def jsSet_props)
  have bs_code: "branches prim cs U = bs"
    by (simp add: bs_def branches_spec [OF cs_noempty])
  have none: "fst result = Inl (RendezvousError COMMITMENT_NOT_FOUND)
               \<and> preferences (snd result) = preferences s" if "committed = []"
    using that handleReveal_none [of s1 pool req prim] by (simp add: res com1 prefs1)
  have allrev: "fst result = Inr \<lparr> rv_success = True, revealedCount = 0 \<rparr>
               \<and> preferences (snd result) = preferences s" if "committed \<noteq> [] \<and> U = []"
    using that handleReveal_all_revealed [of s1 pool req prim] by (simp add: res com1 prefs1 U_def)
  have loop: "fst result =
                 (if left = []
                  then Inr \<lparr> rv_success = True,
                             revealedCount = length (filter (\<lambda>b. b \<noteq> Unmatched) bs) \<rparr>
                  else Inl (RendezvousError COMMITMENT_MISMATCH))
               \<and> snd result = fold applyOutcome (zip U bs) s1" if "U \<noteq> []"
    using that handleReveal_loop [of s1 pool req prim]
    by (simp add: res com1 U_def [symmetric] cs_def [symmetric] bs_code left_def Let_def)
  have prefs_loop: "preferences (snd result) = preferences (fold applyOutcome (zip U bs) s)"
    if "U \<noteq> []"
    using loop [OF that] applyOutcome_preferences_only [OF prefs1] by simp
  have dist: "distinct (userTokens bs)"
    using userTokens_distinct [of prim cs U] by (simp add: bs_code)
  have mismatch: "fst result = Inl (RendezvousError COMMITMENT_MISMATCH)"
    if "U \<noteq> []" "t \<in> set (rr_matchTokens req)" "\<forall>p \<in> set U. \<not> commitMatches prim p t" for t
  proof -
    have "t \<in> set cs" using that(2) by (simp add: cs_def jsSet_props)
    then have "t \<in> set (fold consume (branches prim cs U) cs)"
      using that(3) by (intro unmatched_token_left) auto
    then have "left \<noteq> []" by (auto simp: left_def bs_code)
    then show ?thesis using loop [OF that(1)] by simp
  qed
  have entries: "map_of (preferences s) (pref_id (fst pb)) = Some (fst pb)
        \<and> map_of (preferences (snd result)) (pref_id (fst pb)) = Some (revealedAs (fst pb) (snd pb))"
    if "U \<noteq> []" "keyedById s" "pb \<in> set (zip U bs)" for pb
  proof -
    note up = unrevealed_props [OF that(2) ne nn, folded committed_def, folded U_def]
    obtain q b where pb: "pb = (q, b)" by (cases pb)
    have qU: "q \<in> set U" using that(3) pb by (auto dest: set_zip_leftD)
    have stored: "map_of (preferences s) (pref_id q) = Some q" by (rule up(3) [OF qU])
    have dz: "distinct (map (\<lambda>pb. pref_id (fst pb)) (zip U bs))"
    proof -
      have "length bs = length U" using length_branches [of prim cs U] by (simp add: bs_code)
      then have "map (\<lambda>pb. pref_id (fst pb)) (zip U bs) = map pref_id U"
        by (simp add: map_fst_zip flip: map_map comp_def [of pref_id fst])
      then show ?thesis using up(2) by simp
    qed
    have "map_of (preferences (fold applyOutcome (zip U bs) s)) (pref_id q) = Some (revealedAs q b)"
      using fold_applyOutcome_entry [OF dz _ stored] that(3) pb by simp
    then show ?thesis using stored prefs_loop [OF that(1)] by (simp add: pb)
  qed
  show ?thesis
    unfolding Let_def committed_def [symmetric] U_def [symmetric] cs_def [symmetric]
      bs_def [symmetric] left_def [symmetric] result_def [symmetric]
    using none allrev loop prefs_loop dist mismatch entries by blast
qed

theorem revealPreferences_refines_spec_witness:
  "fst (revealPreferences toy_prim 150 store_reveal reveal_t1)
     = Inr \<lparr> rv_success = True, revealedCount = 2 \<rparr>
   \<and> map (\<lambda>i. map_option (\<lambda>p. (revealed p, matchToken p))
                 (map_of (preferences (snd (revealPreferences toy_prim 150 store_reveal reveal_t1))) i))
        [''r1'', ''d1'', ''x1'']
       = [Some (True, ''T1''), Some (True, ''D1''), Some (False, ''T2'')]"
proof -
  let ?U = "filter (\<lambda>p. \<not> revealed p)
              (getPreferencesByNullifier store_reveal (rr_poolId reveal_t1) (rr_nullifier reveal_t1))"
  let ?bs = "spec_reveal toy_prim (jsSet (rr_matchTokens reveal_t1)) ?U"
  have pool: "getPool store_reveal (rr_poolId reveal_t1) = Some pool_cr"
    by (simp add: getPool_def store_reveal_def reveal_t1_def)
  have key: "pool_id pool_cr = rr_poolId reveal_t1"
    by (simp add: pool_cr_def reveal_t1_def)
  have ne: "rr_poolId reveal_t1 \<noteq> []" and nn: "rr_nullifier reveal_t1 \<noteq> []"
    and noempty: "[] \<notin> set (rr_matchTokens reveal_t1)"
    by (simp_all add: reveal_t1_def)
  have st: "getEffectiveStatus 150 pool_cr = Reveal"
    by (simp add: getEffectiveStatus_def pool_cr_def)
  have U_ne: "?U \<noteq> []" by code_simp
  have left: "fold consume ?bs (jsSet (rr_matchTokens reveal_t1)) = []" by code_simp
  have cnt: "length (filter (\<lambda>b. b \<noteq> Unmatched) ?bs) = 2" by code_simp
  have final: "map (\<lambda>i. map_option (\<lambda>p. (revealed p, matchToken p))
                 (map_of (preferences (fold applyOutcome (zip ?U ?bs) store_reveal)) i))
        [''r1'', ''d1'', ''x1'']
       = [Some (True, ''T1''), Some (True, ''D1''), Some (False, ''T2'')]"
    by code_simp
  from revealPreferences_refines_spec [OF pool key ne nn st noempty, of toy_prim]
  show ?thesis
    unfolding Let_def using U_ne left cnt final by simp
qed

end
